theory Spec2Isabelle
  imports Complex_Main "HOL-Library.Log_Nat"
begin

section \<open>JavaScript numbers\<close>

text \<open>
  The analytics of \<^verbatim>\<open>aviation-backend/server.js\<close> compute with JavaScript Numbers, that
  is IEEE 754 binary64 values. A Number is modelled as \<open>NaN\<close>, one of the two infinities, or
  a finite value given by the real number it denotes. Every arithmetic operation computes the
  exact result and rounds it to the nearest binary64 value (ties to even), as the
  standard prescribes; a result whose rounded magnitude reaches \<open>2^1024\<close> overflows to an
  infinity. The sign of zero is not modelled: the two zeros are one value here (no division
  of the modelled code has a zero divisor, and JSON prints both zeros alike).
\<close>

datatype jsnum = NaN | PInf | NInf | Fin real

definition pow2 :: "int \<Rightarrow> real" where
  "pow2 k = (if 0 \<le> k then 2 ^ nat k else 1 / 2 ^ nat (- k))"

definition ilog2 :: "real \<Rightarrow> int" where
  \<comment> \<open>the binary exponent of a positive real: \<open>pow2 (ilog2 x) \<le> x < pow2 (ilog2 x + 1)\<close>\<close>
  "ilog2 x = (if 1 \<le> x then int (floorlog 2 (nat \<lfloor>x\<rfloor>)) - 1
              else - int (floorlog 2 (nat (\<lceil>1 / x\<rceil> - 1))))"

definition round_half_even :: "real \<Rightarrow> int" where
  "round_half_even q =
     (let f = \<lfloor>q\<rfloor>; r = q - of_int f
      in if r < 1 / 2 then f else if 1 / 2 < r then f + 1 else if even f then f else f + 1)"

definition ulp_exp :: "real \<Rightarrow> int" where
  \<comment> \<open>exponent of the spacing of binary64 values around \<open>x\<close>: 53 significant bits,
      and the fixed spacing \<open>2^-1074\<close> of the subnormal range\<close>
  "ulp_exp x = max (ilog2 \<bar>x\<bar>) (- 1022) - 52"

definition round64 :: "real \<Rightarrow> real" where
  "round64 x =
     (if x = 0 then 0
      else pow2 (ulp_exp x) * of_int (round_half_even (x / pow2 (ulp_exp x))))"

definition to_number :: "real \<Rightarrow> jsnum" where
  \<comment> \<open>the Number an operation with exact result \<open>x\<close> returns\<close>
  "to_number x =
     (let y = round64 x
      in if pow2 1024 \<le> y then PInf else if y \<le> - pow2 1024 then NInf else Fin y)"

definition nat_number :: "nat \<Rightarrow> jsnum" where
  \<comment> \<open>a counter as a Number: lengths and counts of arrays are below \<open>2^32\<close>, and every
      integer below \<open>2^53\<close> is a binary64 value\<close>
  "nat_number n = Fin (of_nat n)"

fun isNaN :: "jsnum \<Rightarrow> bool" where
  "isNaN NaN = True"
| "isNaN _ = False"

fun num_add :: "jsnum \<Rightarrow> jsnum \<Rightarrow> jsnum" where
  "num_add NaN _ = NaN"
| "num_add _ NaN = NaN"
| "num_add PInf NInf = NaN"
| "num_add NInf PInf = NaN"
| "num_add PInf _ = PInf"
| "num_add _ PInf = PInf"
| "num_add NInf _ = NInf"
| "num_add _ NInf = NInf"
| "num_add (Fin a) (Fin b) = to_number (a + b)"

definition num_sgn_inf :: "bool \<Rightarrow> jsnum" where
  "num_sgn_inf positive = (if positive then PInf else NInf)"

fun num_mul :: "jsnum \<Rightarrow> jsnum \<Rightarrow> jsnum" where
  "num_mul NaN _ = NaN"
| "num_mul _ NaN = NaN"
| "num_mul PInf PInf = PInf"
| "num_mul PInf NInf = NInf"
| "num_mul NInf PInf = NInf"
| "num_mul NInf NInf = PInf"
| "num_mul PInf (Fin b) = (if b = 0 then NaN else num_sgn_inf (0 < b))"
| "num_mul NInf (Fin b) = (if b = 0 then NaN else num_sgn_inf (b < 0))"
| "num_mul (Fin a) PInf = (if a = 0 then NaN else num_sgn_inf (0 < a))"
| "num_mul (Fin a) NInf = (if a = 0 then NaN else num_sgn_inf (a < 0))"
| "num_mul (Fin a) (Fin b) = to_number (a * b)"

fun num_div :: "jsnum \<Rightarrow> jsnum \<Rightarrow> jsnum" where
  "num_div NaN _ = NaN"
| "num_div _ NaN = NaN"
| "num_div PInf (Fin b) = num_sgn_inf (0 \<le> b)"
| "num_div NInf (Fin b) = num_sgn_inf (b < 0)"
| "num_div PInf _ = NaN"
| "num_div NInf _ = NaN"
| "num_div (Fin a) PInf = Fin 0"
| "num_div (Fin a) NInf = Fin 0"
| "num_div (Fin a) (Fin b) =
     (if b = 0 then (if a = 0 then NaN else num_sgn_inf (0 < a)) else to_number (a / b))"

fun Math_floor :: "jsnum \<Rightarrow> jsnum" where
  "Math_floor (Fin x) = Fin (of_int \<lfloor>x\<rfloor>)"
| "Math_floor n = n"

fun Math_round :: "jsnum \<Rightarrow> jsnum" where
  \<comment> \<open>\<^verbatim>\<open>Math.round\<close>: the nearest integer, a half rounding towards \<open>+\<infinity>\<close>\<close>
  "Math_round (Fin x) = Fin (of_int \<lfloor>x + 1 / 2\<rfloor>)"
| "Math_round n = n"

fun toFixed_parsed :: "nat \<Rightarrow> jsnum \<Rightarrow> jsnum" where
  \<comment> \<open>\<^verbatim>\<open>parseFloat(x.toFixed(d))\<close>. \<^verbatim>\<open>toFixed\<close> prints the decimal with \<open>d\<close> fraction
      digits nearest to the exact value of \<open>x\<close> (of two nearest the one larger in magnitude),
      and \<^verbatim>\<open>parseFloat\<close> reads that decimal back, rounding it to a Number. From \<open>10^21\<close> on
      \<^verbatim>\<open>toFixed\<close> prints like \<^verbatim>\<open>String(x)\<close>, which reads back as \<open>x\<close>; \<open>NaN\<close> and the
      infinities print as their names and read back as themselves.\<close>
  "toFixed_parsed d (Fin x) =
     (if 10 ^ 21 \<le> \<bar>x\<bar> then Fin x
      else to_number (sgn x * of_int \<lfloor>\<bar>x\<bar> * 10 ^ d + 1 / 2\<rfloor> / 10 ^ d))"
| "toFixed_parsed d n = n"


section \<open>Input values and \<^verbatim>\<open>parseFloat\<close>\<close>

text \<open>
  A \<^verbatim>\<open>duration_hours\<close> field holds a Number, a string, \<^verbatim>\<open>null\<close> or \<^verbatim>\<open>undefined\<close> (an
  absent column). A string is given by the bytes of its UTF-8 encoding, so a character
  outside ASCII is a sequence of two or three bytes.

  \<^verbatim>\<open>parseFloat\<close> is the ECMAScript builtin (ECMA-262, 19.2.4): it skips leading white space,
  takes the longest prefix that is a \<^verbatim>\<open>StrDecimalLiteral\<close> (an optional sign, then
  \<^verbatim>\<open>Infinity\<close> or decimal digits with an optional fraction and an optional exponent), and
  returns the Number nearest to the decimal it denotes, or \<open>NaN\<close> when there is no such prefix.
  The white space it skips are the characters \<^verbatim>\<open>WhiteSpace\<close> and \<^verbatim>\<open>LineTerminator\<close> of the
  standard: TAB, LF, VT, FF, CR, the space, U+00A0, U+1680, U+2000 to U+200A, U+2028,
  U+2029, U+202F, U+205F, U+3000 and U+FEFF.
\<close>

datatype jsval = VUndefined | VNull | VNum jsnum | VStr string

definition white_space_codes :: "string list" where
  \<comment> \<open>the UTF-8 encodings of the white space characters, in the order of the list above\<close>
  "white_space_codes =
     [[CHR 0x09], [CHR 0x0A], [CHR 0x0B], [CHR 0x0C], [CHR 0x0D], [CHR 0x20],
      [CHR 0xC2, CHR 0xA0],
      [CHR 0xE1, CHR 0x9A, CHR 0x80],
      [CHR 0xE2, CHR 0x80, CHR 0x80], [CHR 0xE2, CHR 0x80, CHR 0x81],
      [CHR 0xE2, CHR 0x80, CHR 0x82], [CHR 0xE2, CHR 0x80, CHR 0x83],
      [CHR 0xE2, CHR 0x80, CHR 0x84], [CHR 0xE2, CHR 0x80, CHR 0x85],
      [CHR 0xE2, CHR 0x80, CHR 0x86], [CHR 0xE2, CHR 0x80, CHR 0x87],
      [CHR 0xE2, CHR 0x80, CHR 0x88], [CHR 0xE2, CHR 0x80, CHR 0x89],
      [CHR 0xE2, CHR 0x80, CHR 0x8A],
      [CHR 0xE2, CHR 0x80, CHR 0xA8], [CHR 0xE2, CHR 0x80, CHR 0xA9],
      [CHR 0xE2, CHR 0x80, CHR 0xAF],
      [CHR 0xE2, CHR 0x81, CHR 0x9F],
      [CHR 0xE3, CHR 0x80, CHR 0x80],
      [CHR 0xEF, CHR 0xBB, CHR 0xBF]]"

definition starts_with :: "string \<Rightarrow> string \<Rightarrow> bool" where
  "starts_with p s = (take (length p) s = p)"

definition white_prefix :: "string \<Rightarrow> string option" where
  \<comment> \<open>the white space character \<open>s\<close> starts with, if it starts with one\<close>
  "white_prefix s = find (\<lambda>w. starts_with w s) white_space_codes"

function trim_start :: "string \<Rightarrow> string" where
  "trim_start s =
     (case white_prefix s of None \<Rightarrow> s | Some w \<Rightarrow> trim_start (drop (length w) s))"
  by pat_completeness auto
termination
proof (relation "measure length")
  show "wf (measure length)"
    by simp
next
  fix s w :: string
  assume "white_prefix s = Some w"
  then have "w \<in> set white_space_codes" and "starts_with w s"
    by (auto simp: white_prefix_def find_Some_iff)
  then have "w \<noteq> []" and "take (length w) s = w"
    by (auto simp: white_space_codes_def starts_with_def)
  then have "s \<noteq> []" and "0 < length w"
    by auto
  then show "(drop (length w) s, s) \<in> measure length"
    by simp
qed

declare trim_start.simps [simp del]

definition is_digit :: "char \<Rightarrow> bool" where
  "is_digit c = (c \<in> set ''0123456789'')"

definition digit_val :: "char \<Rightarrow> nat" where
  "digit_val c = of_char c - 48"

definition digits_val :: "string \<Rightarrow> nat" where
  "digits_val ds = foldl (\<lambda>n c. 10 * n + digit_val c) 0 ds"

definition pow10 :: "int \<Rightarrow> real" where
  "pow10 k = (if 0 \<le> k then 10 ^ nat k else 1 / 10 ^ nat (- k))"

definition signed_digits :: "string \<Rightarrow> int" where
  \<comment> \<open>\<^verbatim>\<open>SignedInteger\<close> at the head of \<open>s\<close>; 0 when no digit follows\<close>
  "signed_digits s =
     (case s of
        [] \<Rightarrow> 0
      | c # r \<Rightarrow>
          if c = CHR ''+'' then int (digits_val (takeWhile is_digit r))
          else if c = CHR ''-'' then - int (digits_val (takeWhile is_digit r))
          else int (digits_val (takeWhile is_digit s)))"

definition exponent_part :: "string \<Rightarrow> int" where
  \<comment> \<open>the value of the optional \<^verbatim>\<open>ExponentPart\<close> at the head of \<open>s\<close>; an \<^verbatim>\<open>e\<close> that no
      digit follows is not part of the literal\<close>
  "exponent_part s =
     (case s of
        [] \<Rightarrow> 0
      | c # r \<Rightarrow> if c = CHR ''e'' \<or> c = CHR ''E'' then signed_digits r else 0)"

definition str_unsigned_decimal :: "string \<Rightarrow> real option" where
  \<comment> \<open>the decimal denoted by the longest \<^verbatim>\<open>StrUnsignedDecimalLiteral\<close> (other than
      \<^verbatim>\<open>Infinity\<close>) that \<open>s\<close> starts with\<close>
  "str_unsigned_decimal s =
     (let ip = takeWhile is_digit s;
          r1 = dropWhile is_digit s;
          dot = (r1 \<noteq> [] \<and> hd r1 = CHR ''.'');
          fp = (if dot then takeWhile is_digit (tl r1) else []);
          r2 = (if dot then dropWhile is_digit (tl r1) else r1)
      in if ip = [] \<and> fp = [] then None
         else Some (real (digits_val (ip @ fp)) / 10 ^ length fp * pow10 (exponent_part r2)))"

definition parseFloat :: "string \<Rightarrow> jsnum" where
  "parseFloat inputString =
     (let trimmed = trim_start inputString;
          neg = (trimmed \<noteq> [] \<and> hd trimmed = CHR ''-'');
          signed = (trimmed \<noteq> [] \<and> (hd trimmed = CHR ''-'' \<or> hd trimmed = CHR ''+''));
          body = (if signed then tl trimmed else trimmed)
      in if starts_with ''Infinity'' body then (if neg then NInf else PInf)
         else case str_unsigned_decimal body of
                None \<Rightarrow> NaN
              | Some x \<Rightarrow> to_number (if neg then - x else x))"

text \<open>
  \<^verbatim>\<open>const safeParseFloat = (value) => {
    if (typeof value === 'number') return value;
    const num = parseFloat(value);
    return isNaN(num) ? 0 : num;
  };\<close>
  \<^verbatim>\<open>parseFloat\<close> converts its argument to a string first: \<^verbatim>\<open>null\<close> and \<^verbatim>\<open>undefined\<close>
  become their names.
\<close>

definition safeParseFloat :: "jsval \<Rightarrow> jsnum" where
  "safeParseFloat v =
     (case v of
        VNum n \<Rightarrow> n
      | _ \<Rightarrow>
         (let num = parseFloat (case v of VStr s \<Rightarrow> s | VNull \<Rightarrow> ''null'' | _ \<Rightarrow> ''undefined'')
          in if isNaN num then Fin 0 else num))"


section \<open>Dates and flight records\<close>

text \<open>
  The trend code reads of a \<^verbatim>\<open>Date\<close> only \<^verbatim>\<open>getFullYear()\<close> and \<^verbatim>\<open>getMonth()\<close>, both in
  local time. A valid \<^verbatim>\<open>Date\<close> is therefore modelled by the calendar month it lies in,
  counted as \<open>12 * year + month\<close> with the month from 0; an invalid \<^verbatim>\<open>Date\<close> answers \<open>NaN\<close>
  to both getters. \<^verbatim>\<open>new Date(y, m, 1)\<close> carries a month outside \<open>0..11\<close> into the year. (The
  constructor's rule for the years 0 to 99 is not modelled.)
\<close>

datatype jsdate = InvalidDate | MonthDate int

definition Date_ym :: "int \<Rightarrow> int \<Rightarrow> jsdate" where
  \<comment> \<open>\<^verbatim>\<open>new Date(year, monthIndex, 1)\<close>\<close>
  "Date_ym y m = MonthDate (12 * y + m)"

definition getFullYear :: "int \<Rightarrow> int" where
  "getFullYear d = d div 12"

definition getMonth :: "int \<Rightarrow> nat" where
  "getMonth d = nat (d mod 12)"

fun nat_to_string :: "nat \<Rightarrow> string" where
  "nat_to_string n =
     (if n < 10 then [''0123456789'' ! n]
      else nat_to_string (n div 10) @ [''0123456789'' ! (n mod 10)])"

declare nat_to_string.simps [simp del]

definition int_to_string :: "int \<Rightarrow> string" where
  "int_to_string i = (if i < 0 then CHR ''-'' # nat_to_string (nat (- i)) else nat_to_string (nat i))"

definition padStart :: "nat \<Rightarrow> char \<Rightarrow> string \<Rightarrow> string" where
  "padStart n c s = replicate (n - length s) c @ s"

definition monthKey_of :: "jsdate \<Rightarrow> string" where
  \<comment> \<open>\<^verbatim>\<open>`${date.getFullYear()}-${String(date.getMonth() + 1).padStart(2, '0')}`\<close>\<close>
  "monthKey_of date =
     (case date of
        InvalidDate \<Rightarrow> ''NaN-NaN''
      | MonthDate d \<Rightarrow>
          int_to_string (getFullYear d) @ ''-'' @ padStart 2 CHR ''0'' (nat_to_string (getMonth d + 1)))"

text \<open>
  A row of \<^verbatim>\<open>detailed_flights\<close>, with the fields the analytics read. A text column is
  \<open>None\<close> when it is \<^verbatim>\<open>null\<close> or absent. \<open>flight_date\<close> is \<open>None\<close> when the field is falsy
  (the code skips it), and otherwise the \<^verbatim>\<open>Date\<close> that \<^verbatim>\<open>new Date(flight.flight_date)\<close> is.
\<close>

record flight =
  flight_date :: "jsdate option"
  flight_status :: "string option"
  departure_iata :: "string option"
  arrival_iata :: "string option"
  airline_iata :: "string option"
  duration_hours :: jsval

definition or_default :: "string option \<Rightarrow> string \<Rightarrow> string" where
  \<comment> \<open>\<^verbatim>\<open>field || 'default'\<close>: the empty string is falsy too\<close>
  "or_default v d = (case v of None \<Rightarrow> d | Some s \<Rightarrow> if s = [] then d else s)"

section \<open>Maps in insertion order\<close>

text \<open>
  A JavaScript \<^verbatim>\<open>Map\<close> iterates in the order in which its keys were first set, and setting
  a key it has keeps the key's place.
\<close>

type_synonym 'v jsmap = "(string \<times> 'v) list"

definition map_has :: "'v jsmap \<Rightarrow> string \<Rightarrow> bool" where
  "map_has m k = (k \<in> set (map fst m))"

definition map_get :: "'v jsmap \<Rightarrow> string \<Rightarrow> 'v option" where
  "map_get m k = map_of m k"

fun map_set :: "string \<Rightarrow> 'v \<Rightarrow> 'v jsmap \<Rightarrow> 'v jsmap" where
  "map_set k v [] = [(k, v)]"
| "map_set k v (p # ps) = (if fst p = k then (k, v) # ps else p # map_set k v ps)"

definition sort_desc :: "('a \<Rightarrow> nat) \<Rightarrow> 'a list \<Rightarrow> 'a list" where
  \<comment> \<open>\<^verbatim>\<open>.sort((a, b) => b.f - a.f)\<close>: \<^verbatim>\<open>Array.prototype.sort\<close> is stable\<close>
  "sort_desc f xs = sort_key (\<lambda>x. - int (f x)) xs"

section \<open>The analytics\<close>

text \<open>
  An entry of \<open>monthlyTrend\<close> is \<^verbatim>\<open>{month, flights, hours}\<close>; the last two fields carry a
  prefix here, since \<open>flights\<close> names the argument throughout.
\<close>

record trend_entry =
  month :: string
  tr_flights :: nat
  tr_hours :: jsnum

text \<open>
  \<open>routeMap\<close> and \<open>aircraftMap\<close> are built by the same loop, up to the key and the names of
  the two fields of a value (\<^verbatim>\<open>{frequency, totalDuration}\<close> and \<^verbatim>\<open>{count, hours}\<close>): a counter
  and a sum of durations. One record and one loop model both.
\<close>

record group_data =
  count :: nat
  totalDuration :: jsnum

record route_entry =
  route :: string
  frequency :: nat
  avgDuration :: jsnum

text \<open>
  The entries of \<open>aircraftBreakdown\<close> are \<^verbatim>\<open>{type, count, hours, percentage}\<close> and those of
  \<open>airlineAnalysis\<close> \<^verbatim>\<open>{airline, flights, reliability}\<close>; the fields whose names other
  records have carry a prefix here.
\<close>

record aircraft_entry =
  ac_type :: string
  ac_count :: nat
  ac_hours :: jsnum
  percentage :: jsnum

record airline_entry =
  airline :: string
  al_flights :: nat
  reliability :: jsnum

record status_dist =
  scheduled :: nat
  active :: nat
  completed :: nat
  cancelled :: nat

record time_dist =
  day :: jsnum
  night :: jsnum
  ifr :: jsnum
  crossCountry :: jsnum

record summary =
  totalFlights :: nat
  totalHours :: jsnum
  averageFlightTime :: jsnum
  mostFrequentRoute :: string
  mostUsedAircraft :: string
  onTimePercentage :: jsnum
  monthlyTrend :: "trend_entry list"
  aircraftBreakdown :: "aircraft_entry list"
  routeAnalysis :: "route_entry list"
  statusDistribution :: status_dist
  timeDistribution :: time_dist
  airlineAnalysis :: "airline_entry list"

definition monthNames :: "string list" where
  "monthNames = [''Jan'', ''Feb'', ''Mar'', ''Apr'', ''May'', ''Jun'',
                 ''Jul'', ''Aug'', ''Sep'', ''Oct'', ''Nov'', ''Dec'']"

definition generateEmptyMonthlyTrend :: "trend_entry list" where
  "generateEmptyMonthlyTrend =
     map (\<lambda>m. \<lparr>month = m, tr_flights = 0, tr_hours = Fin 0\<rparr>)
       [''Jan'', ''Feb'', ''Mar'', ''Apr'', ''May'', ''Jun'']"

definition init_month :: "int \<Rightarrow> trend_entry jsmap \<Rightarrow> nat \<Rightarrow> trend_entry jsmap" where
  \<comment> \<open>the body of the loop \<^verbatim>\<open>for (let i = 5; i >= 0; i--)\<close>\<close>
  "init_month currentDate monthlyData i =
     (case Date_ym (getFullYear currentDate) (int (getMonth currentDate) - int i) of
        MonthDate d \<Rightarrow>
          map_set (monthKey_of (MonthDate d))
            \<lparr>month = monthNames ! getMonth d, tr_flights = 0, tr_hours = Fin 0\<rparr> monthlyData
      | InvalidDate \<Rightarrow> monthlyData)"

definition trend_step :: "trend_entry jsmap \<Rightarrow> flight \<Rightarrow> trend_entry jsmap" where
  \<comment> \<open>the body of \<^verbatim>\<open>flights.forEach\<close> in \<^verbatim>\<open>generateMonthlyTrend\<close>; the entry is updated in
      place\<close>
  "trend_step monthlyData flight =
     (case flight_date flight of
        None \<Rightarrow> monthlyData
      | Some flightDate \<Rightarrow>
          (let monthKey = monthKey_of flightDate
           in if map_has monthlyData monthKey then
                (case map_get monthlyData monthKey of
                   Some existing \<Rightarrow>
                     map_set monthKey
                       (existing\<lparr>tr_flights := tr_flights existing + 1,
                                 tr_hours := num_add (tr_hours existing)
                                            (safeParseFloat (duration_hours flight))\<rparr>)
                       monthlyData
                 | None \<Rightarrow> monthlyData)
              else monthlyData))"

definition generateMonthlyTrend :: "int \<Rightarrow> flight list \<Rightarrow> trend_entry list" where
  \<comment> \<open>\<open>currentDate\<close> is the month of \<^verbatim>\<open>new Date()\<close>, the clock's reading\<close>
  "generateMonthlyTrend currentDate flights =
     (let monthlyData = foldl (init_month currentDate) [] [5, 4, 3, 2, 1, 0];
          monthlyData = foldl trend_step monthlyData flights
      in map (\<lambda>data. data\<lparr>tr_hours := num_div (Math_round (num_mul (tr_hours data) (Fin 10))) (Fin 10)\<rparr>)
           (map snd monthlyData))"

definition group_step :: "(flight \<Rightarrow> string) \<Rightarrow> group_data jsmap \<Rightarrow> flight \<Rightarrow> group_data jsmap" where
  \<comment> \<open>the body of the \<^verbatim>\<open>flights.forEach\<close> that fills \<open>routeMap\<close>, and of the one that fills
      \<open>aircraftMap\<close>\<close>
  "group_step key m flight =
     (let k = key flight;
          duration = safeParseFloat (duration_hours flight)
      in if map_has m k then
           (case map_get m k of
              Some existing \<Rightarrow>
                map_set k \<lparr>count = count existing + 1, totalDuration = num_add (totalDuration existing) duration\<rparr> m
            | None \<Rightarrow> m)
         else map_set k \<lparr>count = 1, totalDuration = duration\<rparr> m)"

definition route_key :: "flight \<Rightarrow> string" where
  \<comment> \<open>\<^verbatim>\<open>`${flight.departure_iata || 'N/A'}-${flight.arrival_iata || 'N/A'}`\<close>\<close>
  "route_key flight =
     or_default (departure_iata flight) ''N/A'' @ ''-'' @ or_default (arrival_iata flight) ''N/A''"

definition aircraft_key :: "flight \<Rightarrow> string" where
  \<comment> \<open>\<^verbatim>\<open>flight.airline_iata || 'Unknown'\<close>\<close>
  "aircraft_key flight = or_default (airline_iata flight) ''Unknown''"

definition totalHours_of :: "flight list \<Rightarrow> jsnum" where
  \<comment> \<open>\<^verbatim>\<open>flights.reduce((sum, flight) => sum + safeParseFloat(flight.duration_hours), 0)\<close>\<close>
  "totalHours_of flights =
     foldl (\<lambda>sum flight. num_add sum (safeParseFloat (duration_hours flight))) (Fin 0) flights"

definition routeMap_of :: "flight list \<Rightarrow> group_data jsmap" where
  "routeMap_of flights = foldl (group_step route_key) [] flights"

definition routeAnalysis_of :: "flight list \<Rightarrow> route_entry list" where
  "routeAnalysis_of flights =
     take 5 (sort_desc frequency
       (map (\<lambda>(r, data).
               \<lparr>route = r, frequency = count data,
                avgDuration = (if 0 < count data
                               then num_div (totalDuration data) (nat_number (count data)) else Fin 0)\<rparr>)
          (routeMap_of flights)))"

definition aircraftMap_of :: "flight list \<Rightarrow> group_data jsmap" where
  "aircraftMap_of flights = foldl (group_step aircraft_key) [] flights"

definition aircraftBreakdown_of :: "flight list \<Rightarrow> aircraft_entry list" where
  "aircraftBreakdown_of flights =
     (let totalFlights' = length flights
      in take 5 (sort_desc ac_count
           (map (\<lambda>(t, data).
                   \<lparr>ac_type = t, ac_count = count data, ac_hours = totalDuration data,
                    percentage = (if 0 < totalFlights'
                                  then num_mul (num_div (nat_number (count data))
                                                  (nat_number totalFlights')) (Fin 100)
                                  else Fin 0)\<rparr>)
              (aircraftMap_of flights))))"

definition first_or_NA :: "string list \<Rightarrow> string" where
  \<comment> \<open>\<^verbatim>\<open>xs[0]?.name || 'N/A'\<close>, for the names \<open>xs\<close> of the entries\<close>
  "first_or_NA names = (case names of [] \<Rightarrow> ''N/A'' | n # _ \<Rightarrow> if n = [] then ''N/A'' else n)"

definition statusDistribution_of :: "flight list \<Rightarrow> status_dist" where
  "statusDistribution_of flights =
     \<lparr>scheduled = length (filter (\<lambda>f. flight_status f = Some ''scheduled'') flights),
      active = length (filter (\<lambda>f. flight_status f = Some ''active'') flights),
      completed = length (filter (\<lambda>f. flight_status f = Some ''completed'') flights),
      cancelled = length (filter (\<lambda>f. flight_status f = Some ''cancelled'') flights)\<rparr>"

definition timeDistribution_of :: "jsnum \<Rightarrow> time_dist" where
  \<comment> \<open>the literals \<^verbatim>\<open>0.75\<close>, \<^verbatim>\<open>0.25\<close>, \<^verbatim>\<open>0.40\<close> and \<^verbatim>\<open>0.60\<close> are the Numbers nearest to
      these decimals\<close>
  "timeDistribution_of totalHours' =
     \<lparr>day = Math_floor (num_mul totalHours' (to_number (75 / 100))),
      night = Math_floor (num_mul totalHours' (to_number (25 / 100))),
      ifr = Math_floor (num_mul totalHours' (to_number (40 / 100))),
      crossCountry = Math_floor (num_mul totalHours' (to_number (60 / 100)))\<rparr>"

definition airlineAnalysis_of :: "(nat \<Rightarrow> real) \<Rightarrow> flight list \<Rightarrow> airline_entry list" where
  \<comment> \<open>\<open>random i\<close> is what the \<open>i\<close>-th call of \<^verbatim>\<open>Math.random()\<close> returns; \<^verbatim>\<open>map\<close> calls it
      once for each entry of \<open>aircraftMap\<close>, in order\<close>
  "airlineAnalysis_of random flights =
     take 5 (sort_desc al_flights
       (map (\<lambda>(i, (a, data)).
               \<lparr>airline = a, al_flights = count data,
                reliability = num_add (Fin 85) (num_mul (Fin (random i)) (Fin 15))\<rparr>)
          (enumerate 0 (aircraftMap_of flights))))"

text \<open>
  \<^verbatim>\<open>function processFlightAnalytics(flights)\<close>. Its inputs are the argument (\<open>None\<close> for a
  \<^verbatim>\<open>null\<close> or \<^verbatim>\<open>undefined\<close> one), the clock and the random numbers. Counters are natural
  numbers (an array has fewer than \<open>2^32\<close> elements, which Numbers count exactly), and
  enter the arithmetic through \<open>nat_number\<close>. No operation of the function can throw on
  such input, so the model has no error result. The local constants of the function carry
  a prime where a field of the result has their name.
\<close>

definition processFlightAnalytics :: "int \<Rightarrow> (nat \<Rightarrow> real) \<Rightarrow> flight list option \<Rightarrow> summary" where
  "processFlightAnalytics currentDate random arg =
     (case arg of
        None \<Rightarrow>
          \<lparr>totalFlights = 0, totalHours = Fin 0, averageFlightTime = Fin 0,
           mostFrequentRoute = ''N/A'', mostUsedAircraft = ''N/A'', onTimePercentage = Fin 0,
           monthlyTrend = generateEmptyMonthlyTrend, aircraftBreakdown = [], routeAnalysis = [],
           statusDistribution = \<lparr>scheduled = 0, active = 0, completed = 0, cancelled = 0\<rparr>,
           timeDistribution = \<lparr>day = Fin 0, night = Fin 0, ifr = Fin 0, crossCountry = Fin 0\<rparr>,
           airlineAnalysis = []\<rparr>
      | Some flights \<Rightarrow>
          if length flights = 0 then
            \<lparr>totalFlights = 0, totalHours = Fin 0, averageFlightTime = Fin 0,
             mostFrequentRoute = ''N/A'', mostUsedAircraft = ''N/A'', onTimePercentage = Fin 0,
             monthlyTrend = generateEmptyMonthlyTrend, aircraftBreakdown = [], routeAnalysis = [],
             statusDistribution = \<lparr>scheduled = 0, active = 0, completed = 0, cancelled = 0\<rparr>,
             timeDistribution = \<lparr>day = Fin 0, night = Fin 0, ifr = Fin 0, crossCountry = Fin 0\<rparr>,
             airlineAnalysis = []\<rparr>
          else
            (let totalFlights' = length flights;
                 totalHours' = totalHours_of flights;
                 averageFlightTime' =
                   (if 0 < totalFlights' then num_div totalHours' (nat_number totalFlights')
                    else Fin 0);
                 routeAnalysis' = routeAnalysis_of flights;
                 mostFrequentRoute' = first_or_NA (map route routeAnalysis');
                 aircraftBreakdown' = aircraftBreakdown_of flights;
                 mostUsedAircraft' = first_or_NA (map ac_type aircraftBreakdown');
                 monthlyTrend' = generateMonthlyTrend currentDate flights;
                 statusDistribution' = statusDistribution_of flights;
                 onTimePercentage' =
                   (if 0 < totalFlights'
                    then num_mul (num_div (nat_number (completed statusDistribution'
                                                        + active statusDistribution'))
                                    (nat_number totalFlights')) (Fin 100)
                    else Fin 0);
                 timeDistribution' = timeDistribution_of totalHours';
                 airlineAnalysis' = airlineAnalysis_of random flights
             in \<lparr>totalFlights = totalFlights',
                 totalHours = toFixed_parsed 2 totalHours',
                 averageFlightTime = toFixed_parsed 2 averageFlightTime',
                 mostFrequentRoute = mostFrequentRoute',
                 mostUsedAircraft = mostUsedAircraft',
                 onTimePercentage = toFixed_parsed 1 onTimePercentage',
                 monthlyTrend = monthlyTrend',
                 aircraftBreakdown = aircraftBreakdown',
                 routeAnalysis = routeAnalysis',
                 statusDistribution = statusDistribution',
                 timeDistribution = timeDistribution',
                 airlineAnalysis = airlineAnalysis'\<rparr>))"


section \<open>Notions used to state the properties\<close>

definition recognised_status :: "flight \<Rightarrow> bool" where
  "recognised_status f =
     (flight_status f \<in> {Some ''scheduled'', Some ''active'', Some ''completed'', Some ''cancelled''})"

definition num_sum :: "jsnum list \<Rightarrow> jsnum" where
  \<comment> \<open>the sum of Numbers, added from the left as \<^verbatim>\<open>reduce\<close> and the loops do\<close>
  "num_sum xs = foldl num_add (Fin 0) xs"

definition has_numeric_prefix :: "string \<Rightarrow> bool" where
  \<comment> \<open>some prefix of \<open>s\<close>, after its leading white space, is a \<^verbatim>\<open>StrDecimalLiteral\<close>: past
      an optional sign comes \<^verbatim>\<open>Infinity\<close>, a digit, or a point and a digit\<close>
  "has_numeric_prefix s =
     (let t = trim_start s;
          body = (if t \<noteq> [] \<and> (hd t = CHR ''-'' \<or> hd t = CHR ''+'') then tl t else t)
      in starts_with ''Infinity'' body
         \<or> (body \<noteq> [] \<and> is_digit (hd body))
         \<or> (body \<noteq> [] \<and> hd body = CHR ''.'' \<and> tl body \<noteq> [] \<and> is_digit (hd (tl body))))"

definition exponent_follows :: "string \<Rightarrow> bool" where
  \<comment> \<open>\<open>g\<close> starts with an \<^verbatim>\<open>ExponentPart\<close>: \<^verbatim>\<open>e\<close> or \<^verbatim>\<open>E\<close>, an optional sign, and a digit\<close>
  "exponent_follows g =
     (case g of
        c # d # r \<Rightarrow>
          (c = CHR ''e'' \<or> c = CHR ''E'')
          \<and> (is_digit d \<or> ((d = CHR ''+'' \<or> d = CHR ''-'') \<and> r \<noteq> [] \<and> is_digit (hd r)))
      | _ \<Rightarrow> False)"

definition first_index :: "'a list \<Rightarrow> 'a \<Rightarrow> nat" where
  \<comment> \<open>the position at which \<open>x\<close> first occurs in \<open>xs\<close>\<close>
  "first_index xs x = length (takeWhile (\<lambda>y. y \<noteq> x) xs)"

definition accumulated :: "jsnum list \<Rightarrow> jsnum" where
  \<comment> \<open>the sum a group accumulates: it starts from the first duration, and every further
      one is added to it\<close>
  "accumulated ds = (case ds of [] \<Rightarrow> Fin 0 | d # r \<Rightarrow> foldl num_add d r)"

definition durations_with :: "(flight \<Rightarrow> string) \<Rightarrow> string \<Rightarrow> flight list \<Rightarrow> jsnum list" where
  \<comment> \<open>the coerced durations of the records of \<open>F\<close> whose key is \<open>k\<close>, in the order of \<open>F\<close>\<close>
  "durations_with key k F =
     map (\<lambda>f. safeParseFloat (duration_hours f)) (filter (\<lambda>f. key f = k) F)"

definition route_entry_of :: "string \<times> group_data \<Rightarrow> route_entry" where
  \<comment> \<open>the entry \<^verbatim>\<open>map\<close> makes of an entry of \<open>routeMap\<close>\<close>
  "route_entry_of p =
     \<lparr>route = fst p, frequency = count (snd p),
      avgDuration = (if 0 < count (snd p)
                     then num_div (totalDuration (snd p)) (nat_number (count (snd p))) else Fin 0)\<rparr>"

definition aircraft_entry_of :: "nat \<Rightarrow> string \<times> group_data \<Rightarrow> aircraft_entry" where
  \<comment> \<open>the entry \<^verbatim>\<open>map\<close> makes of an entry of \<open>aircraftMap\<close>, for \<open>n\<close> flights in all\<close>
  "aircraft_entry_of n p =
     \<lparr>ac_type = fst p, ac_count = count (snd p), ac_hours = totalDuration (snd p),
      percentage = (if 0 < n
                    then num_mul (num_div (nat_number (count (snd p))) (nat_number n)) (Fin 100)
                    else Fin 0)\<rparr>"

text \<open>
  The record of the specification's second scenario, a flight from JFK to LAX dated January
  2024, and the current month the examples below use, November 2026.
\<close>

definition flight_JFK_LAX :: flight where
  "flight_JFK_LAX =
     \<lparr>flight_date = Some (MonthDate (12 * 2024 + 0)), flight_status = Some ''completed'',
      departure_iata = Some ''JFK'', arrival_iata = Some ''LAX'', airline_iata = Some ''AA'',
      duration_hours = VNum (Fin (21 / 4))\<rparr>"

definition november_2026 :: int where
  "november_2026 = 12 * 2026 + 10"

text \<open>
  Eight records of six routes and six carriers: the sixth route and carrier occur three
  times (with durations 5.25, \<^verbatim>\<open>"3.5"\<close> and 3.25), the other five once each.
\<close>

definition flight_on :: "string \<Rightarrow> string \<Rightarrow> flight" where
  "flight_on dep carrier = flight_JFK_LAX\<lparr>departure_iata := Some dep, airline_iata := Some carrier\<rparr>"

definition eight_flights :: "flight list" where
  "eight_flights =
     [flight_on ''ATL'' ''DL'', flight_on ''BOS'' ''B6'', flight_on ''CLT'' ''AA'',
      flight_on ''DEN'' ''UA'', flight_on ''EWR'' ''NK'', flight_on ''FLL'' ''F9'',
      (flight_on ''FLL'' ''F9'')\<lparr>duration_hours := VStr ''3.5''\<rparr>,
      (flight_on ''FLL'' ''F9'')\<lparr>duration_hours := VNum (Fin (13 / 4))\<rparr>]"

text \<open>
  Four records on the routes JFK-LAX, LAX-ORD, JFK-LAX and SFO-N/A (no arrival airport), of
  the carriers AA, UA, AA and an unnamed one.
\<close>

definition four_flights :: "flight list" where
  "four_flights =
     [flight_JFK_LAX,
      flight_JFK_LAX\<lparr>departure_iata := Some ''LAX'', arrival_iata := Some ''ORD'',
                      airline_iata := Some ''UA''\<rparr>,
      flight_JFK_LAX\<lparr>duration_hours := VStr ''3.5''\<rparr>,
      flight_JFK_LAX\<lparr>departure_iata := Some ''SFO'', arrival_iata := None,
                      airline_iata := None\<rparr>]"

text \<open>
  The records of a calendar month, the coerced durations of a list of records, and the map
  from month keys to entries that \<open>generateMonthlyTrend\<close> keeps.
\<close>

definition in_month :: "int \<Rightarrow> flight \<Rightarrow> bool" where
  "in_month d f = (flight_date f = Some (MonthDate d))"

definition coerced_durations :: "flight list \<Rightarrow> jsnum list" where
  "coerced_durations F = map (\<lambda>f. safeParseFloat (duration_hours f)) F"

definition month_bucket :: "(int \<Rightarrow> trend_entry) \<Rightarrow> int list \<Rightarrow> trend_entry jsmap" where
  "month_bucket h ds = map (\<lambda>d. (monthKey_of (MonthDate d), h d)) ds"

text \<open>
  Five records: one of January 2024, two of October 2026 (5.34 and 5.25 hours), one
  without a date and one with an invalid date.
\<close>

definition trend_flights :: "flight list" where
  "trend_flights =
     [flight_JFK_LAX,
      flight_JFK_LAX\<lparr>flight_date := Some (MonthDate (12 * 2026 + 9)),
                      duration_hours := VStr ''5.34''\<rparr>,
      flight_JFK_LAX\<lparr>flight_date := Some (MonthDate (12 * 2026 + 9))\<rparr>,
      flight_JFK_LAX\<lparr>flight_date := None\<rparr>,
      flight_JFK_LAX\<lparr>flight_date := Some InvalidDate\<rparr>]"

text \<open>
  A Number is finite when it is neither \<open>NaN\<close> nor an infinity. \<open>flights_of\<close> is the array
  the argument stands for, and \<open>summary_numbers\<close> lists every Number of a summary: its
  counters, and the hours, averages, percentages and reliabilities of its entries.
\<close>

definition finite_number :: "jsnum \<Rightarrow> bool" where
  "finite_number n = (case n of Fin x \<Rightarrow> True | _ \<Rightarrow> False)"

definition flights_of :: "flight list option \<Rightarrow> flight list" where
  "flights_of arg = (case arg of None \<Rightarrow> [] | Some flights \<Rightarrow> flights)"

definition summary_numbers :: "summary \<Rightarrow> jsnum list" where
  "summary_numbers s =
     [nat_number (totalFlights s), totalHours s, averageFlightTime s, onTimePercentage s]
     @ concat (map (\<lambda>e. [nat_number (tr_flights e), tr_hours e]) (monthlyTrend s))
     @ concat (map (\<lambda>e. [nat_number (ac_count e), ac_hours e, percentage e]) (aircraftBreakdown s))
     @ concat (map (\<lambda>e. [nat_number (frequency e), avgDuration e]) (routeAnalysis s))
     @ [nat_number (scheduled (statusDistribution s)), nat_number (active (statusDistribution s)),
        nat_number (completed (statusDistribution s)), nat_number (cancelled (statusDistribution s))]
     @ [day (timeDistribution s), night (timeDistribution s), ifr (timeDistribution s),
        crossCountry (timeDistribution s)]
     @ concat (map (\<lambda>e. [nat_number (al_flights e), reliability e]) (airlineAnalysis s))"

section \<open>Evaluation\<close>

lemmas number_eval =
  to_number_def round64_def ulp_exp_def ilog2_def pow2_def round_half_even_def
  compute_floorlog Let_def nat_number_def num_sgn_inf_def

lemmas parse_eval =
  safeParseFloat_def parseFloat_def str_unsigned_decimal_def exponent_part_def
  signed_digits_def starts_with_def pow10_def digits_val_def digit_val_def is_digit_def
  trim_start.simps white_prefix_def white_space_codes_def

lemmas analytics_eval =
  processFlightAnalytics_def generateEmptyMonthlyTrend_def generateMonthlyTrend_def
  init_month_def trend_step_def group_step_def route_key_def aircraft_key_def
  totalHours_of_def routeMap_of_def routeAnalysis_of_def aircraftMap_of_def
  aircraftBreakdown_of_def first_or_NA_def statusDistribution_of_def timeDistribution_of_def
  airlineAnalysis_of_def sort_desc_def map_has_def map_get_def or_default_def monthKey_of_def
  padStart_def int_to_string_def getMonth_def getFullYear_def Date_ym_def monthNames_def
  nat_to_string.simps enumerate_eq_zip flight_JFK_LAX_def november_2026_def

section \<open>The empty and the non-empty input\<close>

lemma processFlightAnalytics_nonempty:
  "F \<noteq> [] \<Longrightarrow>
   processFlightAnalytics now rnd (Some F) =
     \<lparr>totalFlights = length F,
      totalHours = toFixed_parsed 2 (totalHours_of F),
      averageFlightTime =
        toFixed_parsed 2 (num_div (totalHours_of F) (nat_number (length F))),
      mostFrequentRoute = first_or_NA (map route (routeAnalysis_of F)),
      mostUsedAircraft = first_or_NA (map ac_type (aircraftBreakdown_of F)),
      onTimePercentage =
        toFixed_parsed 1
          (num_mul (num_div (nat_number (completed (statusDistribution_of F)
                                          + active (statusDistribution_of F)))
                      (nat_number (length F))) (Fin 100)),
      monthlyTrend = generateMonthlyTrend now F,
      aircraftBreakdown = aircraftBreakdown_of F,
      routeAnalysis = routeAnalysis_of F,
      statusDistribution = statusDistribution_of F,
      timeDistribution = timeDistribution_of (totalHours_of F),
      airlineAnalysis = airlineAnalysis_of rnd F\<rparr>"
  by (simp add: processFlightAnalytics_def Let_def)

lemma summary_fields:
  assumes "F \<noteq> []"
  shows "totalFlights (processFlightAnalytics now rnd (Some F)) = length F"
    and "totalHours (processFlightAnalytics now rnd (Some F)) = toFixed_parsed 2 (totalHours_of F)"
    and "averageFlightTime (processFlightAnalytics now rnd (Some F))
           = toFixed_parsed 2 (num_div (totalHours_of F) (nat_number (length F)))"
    and "mostFrequentRoute (processFlightAnalytics now rnd (Some F))
           = first_or_NA (map route (routeAnalysis_of F))"
    and "mostUsedAircraft (processFlightAnalytics now rnd (Some F))
           = first_or_NA (map ac_type (aircraftBreakdown_of F))"
    and "monthlyTrend (processFlightAnalytics now rnd (Some F)) = generateMonthlyTrend now F"
    and "aircraftBreakdown (processFlightAnalytics now rnd (Some F)) = aircraftBreakdown_of F"
    and "routeAnalysis (processFlightAnalytics now rnd (Some F)) = routeAnalysis_of F"
    and "statusDistribution (processFlightAnalytics now rnd (Some F)) = statusDistribution_of F"
    and "timeDistribution (processFlightAnalytics now rnd (Some F))
           = timeDistribution_of (totalHours_of F)"
    and "airlineAnalysis (processFlightAnalytics now rnd (Some F)) = airlineAnalysis_of rnd F"
  using assms by (simp_all add: processFlightAnalytics_nonempty)

lemma processFlightAnalytics_empty:
  "processFlightAnalytics now rnd (Some []) = processFlightAnalytics now rnd None"
  by (simp add: processFlightAnalytics_def)

section \<open>Status distribution\<close>

lemma statusDistribution_any:
  "statusDistribution (processFlightAnalytics now rnd (Some F)) = statusDistribution_of F"
proof (cases F)
  case Nil
  then show ?thesis
    by (simp add: processFlightAnalytics_def statusDistribution_of_def)
next
  case (Cons f fs)
  then show ?thesis
    by (simp add: processFlightAnalytics_nonempty)
qed

lemma status_counts_sum:
  "scheduled (statusDistribution_of F) + active (statusDistribution_of F)
     + completed (statusDistribution_of F) + cancelled (statusDistribution_of F)
   = length (filter recognised_status F)"
  by (induction F) (auto simp: statusDistribution_of_def recognised_status_def)

lemma length_filter_eq_iff:
  "length (filter P xs) = length xs \<longleftrightarrow> (\<forall>x\<in>set xs. P x)"
  by (metis filter_id_conv length_filter_le length_filter_less nat_less_le)

text \<open>
  C6. For every input sequence \<open>F\<close>, each of the four counters of \<open>statusDistribution\<close> is the
  number of records whose \<open>flight_status\<close> is exactly that literal; the four counters add
  up to at most the length of \<open>F\<close>, and to exactly the length of \<open>F\<close> if and only if every
  record has one of the four statuses.
\<close>

theorem statusDistribution_counts:
  "scheduled (statusDistribution (processFlightAnalytics now rnd (Some F)))
     = length (filter (\<lambda>f. flight_status f = Some ''scheduled'') F)
   \<and> active (statusDistribution (processFlightAnalytics now rnd (Some F)))
     = length (filter (\<lambda>f. flight_status f = Some ''active'') F)
   \<and> completed (statusDistribution (processFlightAnalytics now rnd (Some F)))
     = length (filter (\<lambda>f. flight_status f = Some ''completed'') F)
   \<and> cancelled (statusDistribution (processFlightAnalytics now rnd (Some F)))
     = length (filter (\<lambda>f. flight_status f = Some ''cancelled'') F)
   \<and> scheduled (statusDistribution (processFlightAnalytics now rnd (Some F)))
       + active (statusDistribution (processFlightAnalytics now rnd (Some F)))
       + completed (statusDistribution (processFlightAnalytics now rnd (Some F)))
       + cancelled (statusDistribution (processFlightAnalytics now rnd (Some F)))
     \<le> length F
   \<and> (scheduled (statusDistribution (processFlightAnalytics now rnd (Some F)))
       + active (statusDistribution (processFlightAnalytics now rnd (Some F)))
       + completed (statusDistribution (processFlightAnalytics now rnd (Some F)))
       + cancelled (statusDistribution (processFlightAnalytics now rnd (Some F)))
     = length F
     \<longleftrightarrow> (\<forall>f\<in>set F. flight_status f \<in>
            {Some ''scheduled'', Some ''active'', Some ''completed'', Some ''cancelled''}))"
proof -
  let ?sd = "statusDistribution (processFlightAnalytics now rnd (Some F))"
  have sd: "?sd = statusDistribution_of F"
    by (rule statusDistribution_any)
  have sum_eq: "scheduled ?sd + active ?sd + completed ?sd + cancelled ?sd
                 = length (filter recognised_status F)"
    unfolding sd by (rule status_counts_sum)
  have "length (filter recognised_status F) = length F \<longleftrightarrow> (\<forall>f\<in>set F. recognised_status f)"
    by (rule length_filter_eq_iff)
  then show ?thesis
    unfolding sum_eq unfolding sd
    by (simp add: statusDistribution_of_def recognised_status_def)
qed

text \<open>
  Two records, one completed and one with the status \<^verbatim>\<open>diverted\<close>: one counter is 1, the
  sum is 1, below the length 2.
\<close>

theorem statusDistribution_counts_witness:
  "completed (statusDistribution (processFlightAnalytics november_2026 (\<lambda>i. 0)
       (Some [flight_JFK_LAX, flight_JFK_LAX\<lparr>flight_status := Some ''diverted''\<rparr>]))) = 1
   \<and> scheduled (statusDistribution (processFlightAnalytics november_2026 (\<lambda>i. 0)
       (Some [flight_JFK_LAX, flight_JFK_LAX\<lparr>flight_status := Some ''diverted''\<rparr>])))
     + active (statusDistribution (processFlightAnalytics november_2026 (\<lambda>i. 0)
       (Some [flight_JFK_LAX, flight_JFK_LAX\<lparr>flight_status := Some ''diverted''\<rparr>])))
     + completed (statusDistribution (processFlightAnalytics november_2026 (\<lambda>i. 0)
       (Some [flight_JFK_LAX, flight_JFK_LAX\<lparr>flight_status := Some ''diverted''\<rparr>])))
     + cancelled (statusDistribution (processFlightAnalytics november_2026 (\<lambda>i. 0)
       (Some [flight_JFK_LAX, flight_JFK_LAX\<lparr>flight_status := Some ''diverted''\<rparr>]))) = 1
   \<and> length [flight_JFK_LAX, flight_JFK_LAX\<lparr>flight_status := Some ''diverted''\<rparr>] = 2"
  using statusDistribution_counts [of november_2026 "\<lambda>i. 0"
      "[flight_JFK_LAX, flight_JFK_LAX\<lparr>flight_status := Some ''diverted''\<rparr>]"]
  by (simp add: flight_JFK_LAX_def)


section \<open>Coercion of durations\<close>

lemma to_number_not_NaN [simp]: "to_number x \<noteq> NaN"
  by (simp add: to_number_def Let_def)

lemma isNaN_iff [simp]: "isNaN n \<longleftrightarrow> n = NaN"
  by (cases n) simp_all

lemma takeWhile_Nil_hd: "takeWhile P xs = [] \<longleftrightarrow> (xs = [] \<or> \<not> P (hd xs))"
  by (cases xs) simp_all

lemma dropWhile_not_hd: "xs = [] \<or> \<not> P (hd xs) \<Longrightarrow> dropWhile P xs = xs"
  by (cases xs) auto

lemma str_unsigned_decimal_None:
  "str_unsigned_decimal b = None \<longleftrightarrow>
     \<not> ((b \<noteq> [] \<and> is_digit (hd b))
        \<or> (b \<noteq> [] \<and> hd b = CHR ''.'' \<and> tl b \<noteq> [] \<and> is_digit (hd (tl b))))"
proof (cases "b \<noteq> [] \<and> is_digit (hd b)")
  case True
  then have "takeWhile is_digit b \<noteq> []"
    by (simp add: takeWhile_Nil_hd)
  with True show ?thesis
    by (simp add: str_unsigned_decimal_def Let_def)
next
  case False
  then have ip: "takeWhile is_digit b = []" and r1: "dropWhile is_digit b = b"
    by (auto simp: takeWhile_Nil_hd dropWhile_not_hd)
  show ?thesis
    using False
    by (auto simp: str_unsigned_decimal_def Let_def ip r1 takeWhile_Nil_hd)
qed

lemma parseFloat_NaN_iff: "parseFloat s = NaN \<longleftrightarrow> \<not> has_numeric_prefix s"
proof -
  define t where "t = trim_start s"
  define body where
    "body = (if t \<noteq> [] \<and> (hd t = CHR ''-'' \<or> hd t = CHR ''+'') then tl t else t)"
  have pf: "parseFloat s =
      (if starts_with ''Infinity'' body then (if t \<noteq> [] \<and> hd t = CHR ''-'' then NInf else PInf)
       else case str_unsigned_decimal body of
              None \<Rightarrow> NaN
            | Some x \<Rightarrow> to_number (if t \<noteq> [] \<and> hd t = CHR ''-'' then - x else x))"
    unfolding parseFloat_def Let_def t_def body_def by (rule refl)
  have hp: "has_numeric_prefix s \<longleftrightarrow>
      (starts_with ''Infinity'' body
       \<or> (body \<noteq> [] \<and> is_digit (hd body))
       \<or> (body \<noteq> [] \<and> hd body = CHR ''.'' \<and> tl body \<noteq> [] \<and> is_digit (hd (tl body))))"
    unfolding has_numeric_prefix_def Let_def t_def body_def by (rule refl)
  show ?thesis
  proof (cases "starts_with ''Infinity'' body")
    case True
    then show ?thesis
      unfolding pf hp by simp
  next
    case False
    show ?thesis
    proof (cases "str_unsigned_decimal body")
      case None
      then show ?thesis
        unfolding pf hp using False None [unfolded str_unsigned_decimal_None] by simp
    next
      case (Some x)
      have "(body \<noteq> [] \<and> is_digit (hd body))
            \<or> (body \<noteq> [] \<and> hd body = CHR ''.'' \<and> tl body \<noteq> [] \<and> is_digit (hd (tl body)))"
        using str_unsigned_decimal_None [of body] Some by auto
      then have "has_numeric_prefix s"
        unfolding hp by blast
      moreover have "parseFloat s \<noteq> NaN"
        unfolding pf using False Some by simp
      ultimately show ?thesis
        by simp
    qed
  qed
qed

lemma safeParseFloat_string:
  "safeParseFloat (VStr s) = (if has_numeric_prefix s then parseFloat s else Fin 0)"
  by (simp add: safeParseFloat_def Let_def parseFloat_NaN_iff)

lemma takeWhile_all_then_not:
  "\<forall>x\<in>set xs. P x \<Longrightarrow> ys = [] \<or> \<not> P (hd ys) \<Longrightarrow> takeWhile P (xs @ ys) = xs"
  by (induction xs) (auto simp: takeWhile_Nil_hd)

lemma dropWhile_all_then_not:
  "\<forall>x\<in>set xs. P x \<Longrightarrow> ys = [] \<or> \<not> P (hd ys) \<Longrightarrow> dropWhile P (xs @ ys) = ys"
  by (induction xs) (auto simp: dropWhile_not_hd)

subsection \<open>Leading white space\<close>

lemma white_prefix_code:
  "w \<in> set white_space_codes \<Longrightarrow> white_prefix (w @ t) = Some w"
  unfolding white_space_codes_def white_prefix_def starts_with_def
  by (elim disjE | simp only: set_simps insert_iff empty_iff)+ simp_all

lemma trim_start_code: "w \<in> set white_space_codes \<Longrightarrow> trim_start (w @ t) = trim_start t"
  by (subst trim_start.simps) (simp add: white_prefix_code)

lemma trim_start_codes:
  "set ws \<subseteq> set white_space_codes \<Longrightarrow> trim_start (concat ws @ t) = trim_start t"
  by (induction ws) (simp_all add: trim_start_code)

lemma white_prefix_None:
  assumes "t = [] \<or> hd t \<notin> set (map hd white_space_codes)"
  shows "white_prefix t = None"
proof -
  have "\<not> starts_with w t" if "w \<in> set white_space_codes" for w
  proof
    assume "starts_with w t"
    then have eq: "take (length w) t = w"
      by (simp add: starts_with_def)
    have "w \<noteq> []"
      using that by (auto simp: white_space_codes_def)
    with eq have "t \<noteq> []" "hd w = hd t"
      by (cases t; cases w; auto)+
    with assms that show False
      by (metis image_eqI set_map)
  qed
  then show ?thesis
    by (simp add: white_prefix_def find_None_iff)
qed

lemma trim_start_id: "t = [] \<or> hd t \<notin> set (map hd white_space_codes) \<Longrightarrow> trim_start t = t"
  by (subst trim_start.simps) (simp add: white_prefix_None)

lemma not_white_lead:
  "is_digit c \<or> c = CHR ''.'' \<or> c = CHR ''+'' \<or> c = CHR ''-'' \<or> c = CHR ''I''
   \<Longrightarrow> c \<notin> set (map hd white_space_codes)"
  by (auto simp: is_digit_def white_space_codes_def)

subsection \<open>Decimal literals\<close>

lemma foldl_digits:
  "foldl (\<lambda>n c. 10 * n + digit_val c) n b
     = n * 10 ^ length b + foldl (\<lambda>n c. 10 * n + digit_val c) 0 b"
proof (induction b arbitrary: n)
  case Nil
  then show ?case by simp
next
  case (Cons c b)
  show ?case
    using Cons.IH [of "10 * n + digit_val c"] Cons.IH [of "digit_val c"]
    by (simp add: algebra_simps)
qed

lemma digits_val_append: "digits_val (a @ b) = digits_val a * 10 ^ length b + digits_val b"
  using foldl_digits [of "digits_val a" b] by (simp add: digits_val_def)

lemma digits_then_rest:
  assumes "\<forall>c\<in>set ds. is_digit c" and "r = [] \<or> \<not> is_digit (hd r)"
  shows "takeWhile is_digit (ds @ r) = ds" and "dropWhile is_digit (ds @ r) = r"
  using assms by (auto simp: takeWhile_Nil_hd dropWhile_not_hd)

lemma not_digit_chars [simp]:
  "\<not> is_digit CHR ''.''" "\<not> is_digit CHR ''e''" "\<not> is_digit CHR ''E''"
  "\<not> is_digit CHR ''+''" "\<not> is_digit CHR ''-''" "\<not> is_digit CHR ''I''"
  by (simp_all add: is_digit_def)

lemma exponent_part_none: "\<not> exponent_follows g \<Longrightarrow> exponent_part g = 0"
proof (cases g)
  case Nil
  then show ?thesis
    by (simp add: exponent_part_def)
next
  case g: (Cons c r)
  assume nf: "\<not> exponent_follows g"
  show ?thesis
  proof (cases r)
    case Nil
    then show ?thesis
      using g by (simp add: exponent_part_def signed_digits_def digits_val_def)
  next
    case r: (Cons d r')
    show ?thesis
    proof (cases "c = CHR ''e'' \<or> c = CHR ''E''")
      case False
      then show ?thesis
        using g by (simp add: exponent_part_def)
    next
      case True
      then have d: "\<not> is_digit d"
        and s: "(d = CHR ''+'' \<or> d = CHR ''-'') \<longrightarrow> r' = [] \<or> \<not> is_digit (hd r')"
        using nf g r by (auto simp: exponent_follows_def)
      have "signed_digits (d # r') = 0"
      proof (cases "d = CHR ''+'' \<or> d = CHR ''-''")
        case True
        with s have "takeWhile is_digit r' = []"
          by (simp add: takeWhile_Nil_hd)
        with True show ?thesis
          by (auto simp: signed_digits_def digits_val_def)
      next
        case False
        then show ?thesis
          using d by (simp add: signed_digits_def digits_val_def)
      qed
      then show ?thesis
        using g r True by (simp add: exponent_part_def)
    qed
  qed
qed

lemma exponent_part_some:
  assumes "ec = CHR ''e'' \<or> ec = CHR ''E''" and "es = [] \<or> es = ''+'' \<or> es = ''-''"
    and "ds \<noteq> []" and "\<forall>c\<in>set ds. is_digit c" and "g = [] \<or> \<not> is_digit (hd g)"
  shows "exponent_part (ec # es @ ds @ g) = (if es = ''-'' then - 1 else 1) * int (digits_val ds)"
proof -
  have tw: "takeWhile is_digit (ds @ g) = ds"
    using assms(4,5) by (rule digits_then_rest)
  obtain d ds' where ds: "ds = d # ds'"
    using assms(3) by (cases ds) auto
  then have d: "is_digit d"
    using assms(4) by simp
  then have nd: "d \<noteq> CHR ''+''" "d \<noteq> CHR ''-''"
    by auto
  have "signed_digits (es @ ds @ g) = (if es = ''-'' then - 1 else 1) * int (digits_val ds)"
    using assms(2)
  proof (elim disjE)
    assume "es = []"
    then show ?thesis
      using tw nd by (simp add: signed_digits_def ds)
  next
    assume "es = ''+''"
    then show ?thesis
      using tw by (simp add: signed_digits_def)
  next
    assume "es = ''-''"
    then show ?thesis
      using tw by (simp add: signed_digits_def)
  qed
  then show ?thesis
    using assms(1) by (auto simp: exponent_part_def)
qed

lemma str_unsigned_decimal_literal:
  assumes ip: "\<forall>c\<in>set ip. is_digit c" and fp: "\<forall>c\<in>set fp. is_digit c"
    and some: "ip \<noteq> [] \<or> fp \<noteq> []" and nodot: "\<not> dot \<longrightarrow> fp = []"
    and r: "r = [] \<or> \<not> is_digit (hd r)" and r': "dot \<or> r = [] \<or> hd r \<noteq> CHR ''.''"
  shows "str_unsigned_decimal (ip @ (if dot then ''.'' @ fp else []) @ r)
           = Some (real (digits_val (ip @ fp)) / 10 ^ length fp * pow10 (exponent_part r))"
proof (cases dot)
  case True
  have 1: "takeWhile is_digit (ip @ (''.'' @ fp @ r)) = ip"
    and 2: "dropWhile is_digit (ip @ (''.'' @ fp @ r)) = ''.'' @ fp @ r"
    using ip by (simp_all add: takeWhile_all_then_not dropWhile_all_then_not)
  have 3: "takeWhile is_digit (fp @ r) = fp" and 4: "dropWhile is_digit (fp @ r) = r"
    using fp r by (rule digits_then_rest)+
  have "str_unsigned_decimal (ip @ (''.'' @ fp @ r))
           = Some (real (digits_val (ip @ fp)) / 10 ^ length fp * pow10 (exponent_part r))"
    unfolding str_unsigned_decimal_def Let_def 1 2
    using some by (simp add: 3 4)
  then show ?thesis
    using True by simp
next
  case False
  then have fp0: "fp = []" and ne: "ip \<noteq> []" and nd: "r = [] \<or> hd r \<noteq> CHR ''.''"
    using nodot some r' by auto
  have 1: "takeWhile is_digit (ip @ r) = ip" and 2: "dropWhile is_digit (ip @ r) = r"
    using ip r by (rule digits_then_rest)+
  have "str_unsigned_decimal (ip @ r)
           = Some (real (digits_val ip) * pow10 (exponent_part r))"
    unfolding str_unsigned_decimal_def Let_def 1 2
    using ne nd by auto
  then show ?thesis
    using False fp0 by simp
qed

lemma parseFloat_signed:
  assumes t: "trim_start s = sg @ body" and sg: "sg = [] \<or> sg = ''+'' \<or> sg = ''-''"
    and body: "body \<noteq> []" "is_digit (hd body) \<or> hd body = CHR ''.''"
  shows "parseFloat s =
           (case str_unsigned_decimal body of
              None \<Rightarrow> NaN
            | Some x \<Rightarrow> to_number (if sg = ''-'' then - x else x))"
proof -
  have h: "hd body \<noteq> CHR ''-''" "hd body \<noteq> CHR ''+''" "hd body \<noteq> CHR ''I''"
    using body(2) by auto
  have inf: "\<not> starts_with ''Infinity'' body"
    using body(1) h(3) by (cases body) (auto simp: starts_with_def)
  show ?thesis
    using sg
  proof (elim disjE)
    assume s: "sg = []"
    show ?thesis
      unfolding parseFloat_def Let_def t s using body(1) h inf by (simp split: option.split)
  next
    assume s: "sg = ''+''"
    show ?thesis
      unfolding parseFloat_def Let_def t s using inf by (simp split: option.split)
  next
    assume s: "sg = ''-''"
    show ?thesis
      unfolding parseFloat_def Let_def t s using inf by (simp split: option.split)
  qed
qed

lemma parseFloat_Infinity:
  assumes ws: "set ws \<subseteq> set white_space_codes" and sg: "sg = [] \<or> sg = ''+'' \<or> sg = ''-''"
  shows "parseFloat (concat ws @ sg @ ''Infinity'' @ g) = (if sg = ''-'' then NInf else PInf)"
proof -
  have "sg @ ''Infinity'' @ g \<noteq> []"
    by simp
  moreover have "hd (sg @ ''Infinity'' @ g) \<notin> set (map hd white_space_codes)"
    using sg by (intro not_white_lead) auto
  ultimately have "trim_start (sg @ ''Infinity'' @ g) = sg @ ''Infinity'' @ g"
    by (intro trim_start_id) simp
  then have t: "trim_start (concat ws @ sg @ ''Infinity'' @ g) = sg @ ''Infinity'' @ g"
    using ws by (simp add: trim_start_codes)
  show ?thesis
    using sg
  proof (elim disjE)
    assume s: "sg = []"
    show ?thesis
      using t unfolding s by (simp add: parseFloat_def Let_def starts_with_def)
  next
    assume s: "sg = ''+''"
    show ?thesis
      using t unfolding s by (simp add: parseFloat_def Let_def starts_with_def)
  next
    assume s: "sg = ''-''"
    show ?thesis
      using t unfolding s by (simp add: parseFloat_def Let_def starts_with_def)
  qed
qed

lemma parseFloat_literal:
  assumes ws: "set ws \<subseteq> set white_space_codes" and sg: "sg = [] \<or> sg = ''+'' \<or> sg = ''-''"
    and ip: "\<forall>c\<in>set ip. is_digit c" and fp: "\<forall>c\<in>set fp. is_digit c"
    and some: "ip \<noteq> [] \<or> (dot \<and> fp \<noteq> [])" and nodot: "\<not> dot \<longrightarrow> fp = []"
    and ex: "expo \<longrightarrow> (ec = CHR ''e'' \<or> ec = CHR ''E'') \<and> (es = [] \<or> es = ''+'' \<or> es = ''-'')
               \<and> ds \<noteq> [] \<and> (\<forall>c\<in>set ds. is_digit c)"
    and noex: "\<not> expo \<longrightarrow> es = [] \<and> ds = []"
    and g: "g = [] \<or> \<not> is_digit (hd g)" "expo \<or> \<not> exponent_follows g"
      "dot \<or> expo \<or> g = [] \<or> hd g \<noteq> CHR ''.''"
  shows "parseFloat (concat ws @ sg @ ip @ (if dot then ''.'' @ fp else [])
            @ (if expo then ec # es @ ds else []) @ g)
         = to_number ((if sg = ''-'' then - 1 else 1)
             * ((real (digits_val ip) + real (digits_val fp) / 10 ^ length fp)
                * pow10 ((if es = ''-'' then - 1 else 1) * int (digits_val ds))))"
proof -
  define r where "r = (if expo then ec # es @ ds else []) @ g"
  define body where "body = ip @ (if dot then ''.'' @ fp else []) @ r"
  have r1: "r = [] \<or> \<not> is_digit (hd r)"
    using g(1) ex by (cases expo) (auto simp: r_def)
  have r2: "dot \<or> r = [] \<or> hd r \<noteq> CHR ''.''"
    using g(3) ex by (cases expo) (auto simp: r_def)
  have e: "exponent_part r = (if es = ''-'' then - 1 else 1) * int (digits_val ds)"
  proof (cases expo)
    case True
    then show ?thesis
      using ex g(1) by (simp add: r_def exponent_part_some)
  next
    case False
    then have "exponent_part r = 0"
      using g(2) by (simp add: r_def exponent_part_none)
    then show ?thesis
      using False noex by (simp add: digits_val_def)
  qed
  have some': "ip \<noteq> [] \<or> fp \<noteq> []"
    using some by auto
  have sud: "str_unsigned_decimal body
           = Some (real (digits_val (ip @ fp)) / 10 ^ length fp * pow10 (exponent_part r))"
    unfolding body_def using ip fp some' nodot r1 r2 by (rule str_unsigned_decimal_literal)
  have b: "body \<noteq> []" "is_digit (hd body) \<or> hd body = CHR ''.''"
    using some ip by (cases ip; auto simp: body_def)+
  then have "hd (sg @ body) \<notin> set (map hd white_space_codes)"
    using sg by (intro not_white_lead) auto
  then have "trim_start (sg @ body) = sg @ body"
    by (intro trim_start_id) simp
  then have t: "trim_start (concat ws @ sg @ body) = sg @ body"
    using ws by (simp add: trim_start_codes)
  have v: "real (digits_val (ip @ fp)) / 10 ^ length fp
             = real (digits_val ip) + real (digits_val fp) / 10 ^ length fp"
    by (simp add: digits_val_append field_simps)
  have "parseFloat (concat ws @ sg @ body)
          = to_number (if sg = ''-''
              then - (real (digits_val (ip @ fp)) / 10 ^ length fp * pow10 (exponent_part r))
              else real (digits_val (ip @ fp)) / 10 ^ length fp * pow10 (exponent_part r))"
    using parseFloat_signed [OF t sg b] by (simp add: sud)
  also have "\<dots> = to_number ((if sg = ''-'' then - 1 else 1)
             * ((real (digits_val ip) + real (digits_val fp) / 10 ^ length fp)
                * pow10 ((if es = ''-'' then - 1 else 1) * int (digits_val ds))))"
    unfolding v e by simp
  finally show ?thesis
    by (simp add: body_def r_def)
qed

text \<open>
  C10. Coercing a string parses its numeric prefix: a string that has one is coerced to the
  Number \<^verbatim>\<open>parseFloat\<close> reads from it, which is never \<open>NaN\<close>, and only a string that has
  none falls back to 0. The Number read is that of the leading literal, whatever follows
  it: for a string made of white space \<open>ws\<close>, an optional sign \<open>sg\<close>, the digits \<open>ip\<close>,
  optionally a point and the digits \<open>fp\<close> (at least one digit in all), optionally an exponent
  of \<^verbatim>\<open>e\<close> or \<^verbatim>\<open>E\<close>, a sign \<open>es\<close> and the digits \<open>ds\<close>, and a rest \<open>g\<close> that does not continue
  the literal, it is the Number nearest to \<open>\<plusminus> ip.fp \<times> 10^(\<plusminus> ds)\<close>; and a string whose
  sign is followed by \<^verbatim>\<open>Infinity\<close> is coerced to that infinity.
\<close>

theorem safeParseFloat_numeric_prefix:
  "safeParseFloat (VStr s) = (if has_numeric_prefix s then parseFloat s else Fin 0)
   \<and> (has_numeric_prefix s \<longrightarrow> parseFloat s \<noteq> NaN)
   \<and> (set ws \<subseteq> set white_space_codes \<and> (sg = [] \<or> sg = ''+'' \<or> sg = ''-'')
        \<and> (\<forall>c\<in>set ip. is_digit c) \<and> (\<forall>c\<in>set fp. is_digit c)
        \<and> (ip \<noteq> [] \<or> (dot \<and> fp \<noteq> [])) \<and> (\<not> dot \<longrightarrow> fp = [])
        \<and> (expo \<longrightarrow> (ec = CHR ''e'' \<or> ec = CHR ''E'') \<and> (es = [] \<or> es = ''+'' \<or> es = ''-'')
               \<and> ds \<noteq> [] \<and> (\<forall>c\<in>set ds. is_digit c))
        \<and> (\<not> expo \<longrightarrow> es = [] \<and> ds = [])
        \<and> (g = [] \<or> \<not> is_digit (hd g)) \<and> (expo \<or> \<not> exponent_follows g)
        \<and> (dot \<or> expo \<or> g = [] \<or> hd g \<noteq> CHR ''.'')
      \<longrightarrow> safeParseFloat (VStr (concat ws @ sg @ ip @ (if dot then ''.'' @ fp else [])
              @ (if expo then ec # es @ ds else []) @ g))
            = to_number ((if sg = ''-'' then - 1 else 1)
                * ((real (digits_val ip) + real (digits_val fp) / 10 ^ length fp)
                   * pow10 ((if es = ''-'' then - 1 else 1) * int (digits_val ds)))))
   \<and> (set ws \<subseteq> set white_space_codes \<and> (sg = [] \<or> sg = ''+'' \<or> sg = ''-'')
      \<longrightarrow> safeParseFloat (VStr (concat ws @ sg @ ''Infinity'' @ g))
            = (if sg = ''-'' then NInf else PInf))"
proof (intro conjI impI)
  show "safeParseFloat (VStr s) = (if has_numeric_prefix s then parseFloat s else Fin 0)"
    by (rule safeParseFloat_string)
  show "parseFloat s \<noteq> NaN" if "has_numeric_prefix s"
    using that by (simp add: parseFloat_NaN_iff)
  show "safeParseFloat (VStr (concat ws @ sg @ ip @ (if dot then ''.'' @ fp else [])
              @ (if expo then ec # es @ ds else []) @ g))
            = to_number ((if sg = ''-'' then - 1 else 1)
                * ((real (digits_val ip) + real (digits_val fp) / 10 ^ length fp)
                   * pow10 ((if es = ''-'' then - 1 else 1) * int (digits_val ds))))"
    if h: "set ws \<subseteq> set white_space_codes \<and> (sg = [] \<or> sg = ''+'' \<or> sg = ''-'')
        \<and> (\<forall>c\<in>set ip. is_digit c) \<and> (\<forall>c\<in>set fp. is_digit c)
        \<and> (ip \<noteq> [] \<or> (dot \<and> fp \<noteq> [])) \<and> (\<not> dot \<longrightarrow> fp = [])
        \<and> (expo \<longrightarrow> (ec = CHR ''e'' \<or> ec = CHR ''E'') \<and> (es = [] \<or> es = ''+'' \<or> es = ''-'')
               \<and> ds \<noteq> [] \<and> (\<forall>c\<in>set ds. is_digit c))
        \<and> (\<not> expo \<longrightarrow> es = [] \<and> ds = [])
        \<and> (g = [] \<or> \<not> is_digit (hd g)) \<and> (expo \<or> \<not> exponent_follows g)
        \<and> (dot \<or> expo \<or> g = [] \<or> hd g \<noteq> CHR ''.'')"
  proof -
    have "parseFloat (concat ws @ sg @ ip @ (if dot then ''.'' @ fp else [])
              @ (if expo then ec # es @ ds else []) @ g)
            = to_number ((if sg = ''-'' then - 1 else 1)
                * ((real (digits_val ip) + real (digits_val fp) / 10 ^ length fp)
                   * pow10 ((if es = ''-'' then - 1 else 1) * int (digits_val ds))))"
      using h by (intro parseFloat_literal) blast+
    then show ?thesis
      by (simp add: safeParseFloat_def Let_def)
  qed
  show "safeParseFloat (VStr (concat ws @ sg @ ''Infinity'' @ g)) = (if sg = ''-'' then NInf else PInf)"
    if h: "set ws \<subseteq> set white_space_codes \<and> (sg = [] \<or> sg = ''+'' \<or> sg = ''-'')"
  proof -
    have "parseFloat (concat ws @ sg @ ''Infinity'' @ g) = (if sg = ''-'' then NInf else PInf)"
      using h by (intro parseFloat_Infinity) blast+
    then show ?thesis
      by (simp add: safeParseFloat_def Let_def)
  qed
qed

text \<open>
  The strings \<^verbatim>\<open>3.5abc\<close>, \<^verbatim>\<open>42abc\<close> and \<^verbatim>\<open>1e3abc\<close> are coerced to 3.5, 42 and 1000; a
  space and a no-break space before \<^verbatim>\<open>-7.5E-1e\<close> give -0.75; \<^verbatim>\<open>abc\<close> gives 0.
\<close>

theorem safeParseFloat_numeric_prefix_witness:
  "has_numeric_prefix ''3.5abc'' \<and> safeParseFloat (VStr ''3.5abc'') = Fin (7 / 2)
   \<and> safeParseFloat (VStr ''42abc'') = Fin 42
   \<and> safeParseFloat (VStr ''1e3abc'') = Fin 1000
   \<and> safeParseFloat (VStr ([CHR 0x20, CHR 0xC2, CHR 0xA0] @ ''-7.5E-1e'')) = Fin (- (3 / 4))
   \<and> safeParseFloat (VStr ''+Infinity and beyond'') = PInf
   \<and> \<not> has_numeric_prefix ''abc'' \<and> safeParseFloat (VStr ''abc'') = Fin 0"
proof -
  have a: "safeParseFloat (VStr ''3.5abc'') = Fin (7 / 2)"
    using safeParseFloat_numeric_prefix [where ws = "[]" and sg = "[]" and ip = "''3''"
        and dot = True and fp = "''5''" and expo = False and es = "[]" and ds = "[]"
        and g = "''abc''",
        THEN conjunct2, THEN conjunct2, THEN conjunct1]
    by (simp add: is_digit_def exponent_follows_def digits_val_def digit_val_def pow10_def
        number_eval)
  have b: "safeParseFloat (VStr ''42abc'') = Fin 42"
    using safeParseFloat_numeric_prefix [where ws = "[]" and sg = "[]" and ip = "''42''"
        and dot = False and fp = "[]" and expo = False and es = "[]" and ds = "[]"
        and g = "''abc''",
        THEN conjunct2, THEN conjunct2, THEN conjunct1]
    by (simp add: is_digit_def exponent_follows_def digits_val_def digit_val_def pow10_def
        number_eval)
  have c: "safeParseFloat (VStr ''1e3abc'') = Fin 1000"
    using safeParseFloat_numeric_prefix [where ws = "[]" and sg = "[]" and ip = "''1''"
        and dot = False and fp = "[]" and expo = True and ec = "CHR ''e''" and es = "[]"
        and ds = "''3''" and g = "''abc''",
        THEN conjunct2, THEN conjunct2, THEN conjunct1]
    by (simp add: is_digit_def exponent_follows_def digits_val_def digit_val_def pow10_def
        number_eval)
  have d: "safeParseFloat (VStr ([CHR 0x20, CHR 0xC2, CHR 0xA0] @ ''-7.5E-1e'')) = Fin (- (3 / 4))"
    using safeParseFloat_numeric_prefix [where ws = "[[CHR 0x20], [CHR 0xC2, CHR 0xA0]]"
        and sg = "''-''" and ip = "''7''" and dot = True and fp = "''5''" and expo = True
        and ec = "CHR ''E''" and es = "''-''" and ds = "''1''" and g = "''e''",
        THEN conjunct2, THEN conjunct2, THEN conjunct1]
    by (simp add: is_digit_def exponent_follows_def digits_val_def digit_val_def pow10_def
        white_space_codes_def number_eval)
  have e: "safeParseFloat (VStr ''+Infinity and beyond'') = PInf"
    using safeParseFloat_numeric_prefix [where ws = "[]" and sg = "''+''" and g = "'' and beyond''",
        THEN conjunct2, THEN conjunct2, THEN conjunct2]
    by simp
  have f: "has_numeric_prefix ''3.5abc''" "\<not> has_numeric_prefix ''abc''"
    "safeParseFloat (VStr ''abc'') = Fin 0"
    by (simp_all add: has_numeric_prefix_def parse_eval number_eval)
  from a b c d e f show ?thesis
    by (intro conjI)
qed

section \<open>Scalar aggregates\<close>

lemma to_number_0: "to_number 0 = Fin 0"
  by (simp add: to_number_def round64_def pow2_def)

lemma toFixed_parsed_0: "toFixed_parsed d (Fin 0) = Fin 0"
  by (simp add: to_number_0)

lemma totalHours_of_num_sum:
  "totalHours_of F = num_sum (map (\<lambda>f. safeParseFloat (duration_hours f)) F)"
  by (simp add: totalHours_of_def num_sum_def foldl_map)

text \<open>
  C1. For every input sequence \<open>F\<close>, \<open>totalFlights\<close> is the length of \<open>F\<close>, \<open>totalHours\<close> is
  the sum of the coerced durations of all records, rounded to 2 decimals, and
  \<open>averageFlightTime\<close> is that sum divided by the number of flights, rounded to 2 decimals
  (0 when there is no flight).
\<close>

theorem scalar_aggregates:
  "totalFlights (processFlightAnalytics now rnd (Some F)) = length F
   \<and> totalHours (processFlightAnalytics now rnd (Some F))
       = toFixed_parsed 2 (num_sum (map (\<lambda>f. safeParseFloat (duration_hours f)) F))
   \<and> averageFlightTime (processFlightAnalytics now rnd (Some F))
       = (if length F = 0 then Fin 0
          else toFixed_parsed 2
                 (num_div (num_sum (map (\<lambda>f. safeParseFloat (duration_hours f)) F))
                    (nat_number (length F))))"
proof (cases F)
  case Nil
  then show ?thesis
    by (simp add: processFlightAnalytics_def num_sum_def to_number_0)
next
  case (Cons f fs)
  then have "F \<noteq> []"
    by simp
  then show ?thesis
    by (simp add: processFlightAnalytics_nonempty totalHours_of_num_sum)
qed

text \<open>
  Durations 5.25, \<^verbatim>\<open>"3.5"\<close> and \<^verbatim>\<open>"abc"\<close>: 3 flights, 8.75 hours, and the average
  2.91666... rounded to 2.92.
\<close>

theorem scalar_aggregates_example:
  "totalFlights (processFlightAnalytics november_2026 (\<lambda>i. 0)
      (Some [flight_JFK_LAX, flight_JFK_LAX\<lparr>duration_hours := VStr ''3.5''\<rparr>,
             flight_JFK_LAX\<lparr>duration_hours := VStr ''abc''\<rparr>])) = 3
   \<and> totalHours (processFlightAnalytics november_2026 (\<lambda>i. 0)
      (Some [flight_JFK_LAX, flight_JFK_LAX\<lparr>duration_hours := VStr ''3.5''\<rparr>,
             flight_JFK_LAX\<lparr>duration_hours := VStr ''abc''\<rparr>])) = Fin (35 / 4)
   \<and> averageFlightTime (processFlightAnalytics november_2026 (\<lambda>i. 0)
      (Some [flight_JFK_LAX, flight_JFK_LAX\<lparr>duration_hours := VStr ''3.5''\<rparr>,
             flight_JFK_LAX\<lparr>duration_hours := VStr ''abc''\<rparr>])) = to_number (292 / 100)"
  using scalar_aggregates [of november_2026 "\<lambda>i. 0"
      "[flight_JFK_LAX, flight_JFK_LAX\<lparr>duration_hours := VStr ''3.5''\<rparr>,
        flight_JFK_LAX\<lparr>duration_hours := VStr ''abc''\<rparr>]"]
  by (simp add: num_sum_def flight_JFK_LAX_def parse_eval number_eval)

section \<open>The empty input\<close>

text \<open>
  C2. For the empty and for the \<^verbatim>\<open>null\<close> input the function returns the zeroed summary, whose
  \<open>monthlyTrend\<close> is the six entries January to June whatever the current month is; in
  November 2026 the six months ending at the current one are June to November, which is
  what \<open>generateMonthlyTrend\<close> returns for an input without flights.
\<close>

theorem empty_input_summary:
  "processFlightAnalytics now rnd None =
     \<lparr>totalFlights = 0, totalHours = Fin 0, averageFlightTime = Fin 0,
      mostFrequentRoute = ''N/A'', mostUsedAircraft = ''N/A'', onTimePercentage = Fin 0,
      monthlyTrend =
        [\<lparr>month = ''Jan'', tr_flights = 0, tr_hours = Fin 0\<rparr>,
         \<lparr>month = ''Feb'', tr_flights = 0, tr_hours = Fin 0\<rparr>,
         \<lparr>month = ''Mar'', tr_flights = 0, tr_hours = Fin 0\<rparr>,
         \<lparr>month = ''Apr'', tr_flights = 0, tr_hours = Fin 0\<rparr>,
         \<lparr>month = ''May'', tr_flights = 0, tr_hours = Fin 0\<rparr>,
         \<lparr>month = ''Jun'', tr_flights = 0, tr_hours = Fin 0\<rparr>],
      aircraftBreakdown = [], routeAnalysis = [],
      statusDistribution = \<lparr>scheduled = 0, active = 0, completed = 0, cancelled = 0\<rparr>,
      timeDistribution = \<lparr>day = Fin 0, night = Fin 0, ifr = Fin 0, crossCountry = Fin 0\<rparr>,
      airlineAnalysis = []\<rparr>
   \<and> processFlightAnalytics now rnd (Some []) = processFlightAnalytics now rnd None
   \<and> map month (monthlyTrend (processFlightAnalytics november_2026 rnd (Some [])))
       = [''Jan'', ''Feb'', ''Mar'', ''Apr'', ''May'', ''Jun'']
   \<and> map month (generateMonthlyTrend november_2026 [])
       = [''Jun'', ''Jul'', ''Aug'', ''Sep'', ''Oct'', ''Nov'']"
  by (simp add: analytics_eval)

section \<open>Time distribution\<close>

text \<open>
  C9, as stated, fails: for one flight of 3.99609375 hours the summary's \<open>totalHours\<close> is 4,
  a quarter of which floors to 1, and \<open>night\<close> is 0.
\<close>

theorem timeDistribution_of_rounded_total_counterexample:
  "totalHours (processFlightAnalytics november_2026 (\<lambda>i. 0)
      (Some [flight_JFK_LAX\<lparr>duration_hours := VNum (Fin (1023 / 256))\<rparr>])) = Fin 4
   \<and> Math_floor (num_mul (Fin 4) (to_number (25 / 100))) = Fin 1
   \<and> night (timeDistribution (processFlightAnalytics november_2026 (\<lambda>i. 0)
      (Some [flight_JFK_LAX\<lparr>duration_hours := VNum (Fin (1023 / 256))\<rparr>]))) = Fin 0"
  by (simp add: analytics_eval parse_eval number_eval)

lemma timeDistribution_of_0:
  "timeDistribution_of (Fin 0) = \<lparr>day = Fin 0, night = Fin 0, ifr = Fin 0, crossCountry = Fin 0\<rparr>"
  by (simp add: timeDistribution_of_def number_eval)

text \<open>
  C9, amended. For every input sequence the four fields of \<open>timeDistribution\<close> are the
  floors of 0.75, 0.25, 0.40 and 0.60 times the sum of the coerced durations, the sum not
  rounded to 2 decimals.
\<close>

theorem timeDistribution_of_unrounded_sum:
  "timeDistribution (processFlightAnalytics now rnd (Some F)) =
     \<lparr>day = Math_floor (num_mul
              (num_sum (map (\<lambda>f. safeParseFloat (duration_hours f)) F)) (to_number (75 / 100))),
      night = Math_floor (num_mul
              (num_sum (map (\<lambda>f. safeParseFloat (duration_hours f)) F)) (to_number (25 / 100))),
      ifr = Math_floor (num_mul
              (num_sum (map (\<lambda>f. safeParseFloat (duration_hours f)) F)) (to_number (40 / 100))),
      crossCountry = Math_floor (num_mul
              (num_sum (map (\<lambda>f. safeParseFloat (duration_hours f)) F)) (to_number (60 / 100)))\<rparr>"
proof (cases F)
  case Nil
  have "timeDistribution (processFlightAnalytics now rnd (Some [])) = timeDistribution_of (Fin 0)"
    by (simp add: processFlightAnalytics_def timeDistribution_of_0)
  with Nil show ?thesis
    by (simp add: timeDistribution_of_def num_sum_def)
next
  case (Cons f fs)
  then have "F \<noteq> []"
    by simp
  then show ?thesis
    by (simp add: processFlightAnalytics_nonempty totalHours_of_num_sum timeDistribution_of_def)
qed


section \<open>Maps and grouping\<close>

subsection \<open>Maps\<close>

lemma map_has_iff: "map_has m k \<longleftrightarrow> map_of m k \<noteq> None"
  by (simp add: map_has_def map_of_eq_None_iff)

lemma keys_map_set:
  "map fst (map_set k v m) = (if k \<in> set (map fst m) then map fst m else map fst m @ [k])"
  by (induction m) auto

lemma map_of_map_set: "map_of (map_set k v m) = (map_of m)(k \<mapsto> v)"
  by (induction m) (auto simp: fun_eq_iff)

lemma set_map_set: "set (map_set k v m) \<subseteq> insert (k, v) (set m)"
  by (induction m) auto

lemma map_set_other:
  "(k', v') \<in> set (map_set k v m) \<Longrightarrow> k' \<noteq> k \<Longrightarrow> (k', v') \<in> set m"
  using set_map_set [of k v m] by auto

lemma map_set_same:
  "distinct (map fst m) \<Longrightarrow> (k, v') \<in> set (map_set k v m) \<Longrightarrow> v' = v"
proof -
  assume d: "distinct (map fst m)" and i: "(k, v') \<in> set (map_set k v m)"
  have "distinct (map fst (map_set k v m))"
    using d by (simp add: keys_map_set)
  then have "map_of (map_set k v m) k = Some v'"
    using i by simp
  then show "v' = v"
    by (simp add: map_of_map_set)
qed

subsection \<open>Grouping\<close>

lemma group_step_eq:
  "group_step key m f =
     map_set (key f)
       (case map_of m (key f) of
          Some existing \<Rightarrow>
            \<lparr>count = count existing + 1,
             totalDuration = num_add (totalDuration existing) (safeParseFloat (duration_hours f))\<rparr>
        | None \<Rightarrow> \<lparr>count = 1, totalDuration = safeParseFloat (duration_hours f)\<rparr>) m"
  by (auto simp: group_step_def Let_def map_has_iff map_get_def split: option.splits)

lemma keys_group_step:
  "map fst (group_step key m f) =
     (if key f \<in> set (map fst m) then map fst m else map fst m @ [key f])"
  by (simp add: group_step_eq keys_map_set)

lemma foldl_snoc: "foldl g a (xs @ [x]) = g (foldl g a xs) x"
  by simp

lemma group_keys_set: "fst ` set (foldl (group_step key) [] F) = key ` set F"
proof (induction F rule: rev_induct)
  case Nil
  then show ?case by simp
next
  case (snoc f F)
  have "set (map fst (group_step key (foldl (group_step key) [] F) f))
          = insert (key f) (fst ` set (foldl (group_step key) [] F))"
    by (auto simp: keys_group_step)
  then show ?case
    using snoc.IH by simp
qed

lemma group_keys_distinct: "distinct (map fst (foldl (group_step key) [] F))"
  by (induction F rule: rev_induct) (auto simp: keys_group_step)

lemma first_index_append_in:
  "x \<in> set xs \<Longrightarrow> first_index (xs @ ys) x = first_index xs x"
  by (simp add: first_index_def takeWhile_append1)

lemma first_index_less: "x \<in> set xs \<Longrightarrow> first_index xs x < length xs"
  unfolding first_index_def by (induction xs) auto

lemma first_index_new: "x \<notin> set xs \<Longrightarrow> first_index (xs @ [x]) x = length xs"
  unfolding first_index_def by (induction xs) auto

lemma group_keys_first_seen:
  "sorted_wrt (\<lambda>a b. first_index (map key F) a < first_index (map key F) b)
     (map fst (foldl (group_step key) [] F))"
proof (induction F rule: rev_induct)
  case Nil
  then show ?case by simp
next
  case (snoc f F)
  let ?ks = "map key F"
  let ?m = "foldl (group_step key) [] F"
  have same: "sorted_wrt (\<lambda>a b. first_index (?ks @ [key f]) a < first_index (?ks @ [key f]) b)
                (map fst ?m)"
  proof (rule sorted_wrt_mono_rel [OF _ snoc.IH])
    fix a b
    assume "a \<in> set (map fst ?m)" "b \<in> set (map fst ?m)"
      and "first_index ?ks a < first_index ?ks b"
    then show "first_index (?ks @ [key f]) a < first_index (?ks @ [key f]) b"
      by (simp add: group_keys_set first_index_append_in)
  qed
  show ?case
  proof (cases "key f \<in> set (map fst ?m)")
    case True
    then show ?thesis
      using same by (simp add: keys_group_step)
  next
    case False
    then have new: "key f \<notin> set ?ks"
      by (simp add: group_keys_set)
    have "first_index (?ks @ [key f]) a < first_index (?ks @ [key f]) (key f)"
      if "a \<in> set (map fst ?m)" for a
    proof -
      from that have "a \<in> set ?ks"
        by (simp add: group_keys_set)
      then show ?thesis
        using new first_index_less [of a "map key F"]
        by (simp add: first_index_append_in first_index_new)
    qed
    then show ?thesis
      using same False by (simp add: keys_group_step sorted_wrt_append)
  qed
qed

lemma accumulated_snoc:
  "ds \<noteq> [] \<Longrightarrow> accumulated (ds @ [d]) = num_add (accumulated ds) d"
  by (cases ds) (simp_all add: accumulated_def)

lemma group_entries:
  "(k, g) \<in> set (foldl (group_step key) [] F) \<Longrightarrow>
   count g = length (filter (\<lambda>f. key f = k) F) \<and> totalDuration g = accumulated (durations_with key k F)"
proof (induction F arbitrary: k g rule: rev_induct)
  case Nil
  then show ?case by simp
next
  case (snoc f F)
  let ?m = "foldl (group_step key) [] F"
  have dist: "distinct (map fst ?m)"
    by (rule group_keys_distinct)
  from snoc.prems have mem: "(k, g) \<in> set (group_step key ?m f)"
    by simp
  show ?case
  proof (cases "k = key f")
    case False
    then have "(k, g) \<in> set ?m"
      using mem unfolding group_step_eq by (auto dest: map_set_other)
    then show ?thesis
      using snoc.IH False by (auto simp: durations_with_def)
  next
    case True
    show ?thesis
    proof (cases "map_of ?m (key f)")
      case None
      then have "key f \<notin> set (map key F)"
        by (simp add: map_of_eq_None_iff group_keys_set)
      then have "key x \<noteq> key f" if "x \<in> set F" for x
        using that by (metis imageI set_map)
      then have none: "filter (\<lambda>x. key x = key f) F = []"
        by (simp add: filter_empty_conv)
      have "g = \<lparr>count = 1, totalDuration = safeParseFloat (duration_hours f)\<rparr>"
        using mem dist unfolding group_step_eq None True by (auto dest: map_set_same)
      then show ?thesis
        using True none by (simp add: durations_with_def accumulated_def)
    next
      case (Some existing)
      then have ex: "(key f, existing) \<in> set ?m"
        by (rule map_of_SomeD)
      then have old: "count existing = length (filter (\<lambda>x. key x = key f) F)"
        "totalDuration existing = accumulated (durations_with key (key f) F)"
        using snoc.IH by auto
      from ex have "key f \<in> set (map key F)"
        using group_keys_set [of key F] by force
      then obtain x where "x \<in> set F" "key x = key f"
        by auto
      then have ne: "durations_with key (key f) F \<noteq> []"
        by (auto simp: durations_with_def filter_empty_conv)
      have "g = \<lparr>count = count existing + 1,
                 totalDuration = num_add (totalDuration existing) (safeParseFloat (duration_hours f))\<rparr>"
        using mem dist unfolding group_step_eq Some True by (auto dest: map_set_same)
      then show ?thesis
        using True old ne accumulated_snoc [OF ne, of "safeParseFloat (duration_hours f)"]
        by (simp add: durations_with_def)
    qed
  qed
qed



subsection \<open>Sorting\<close>

lemma set_sort_desc [simp]: "set (sort_desc f xs) = set xs"
  by (simp add: sort_desc_def)

lemma length_sort_desc [simp]: "length (sort_desc f xs) = length xs"
  by (simp add: sort_desc_def)

lemma insort_key_lex:
  assumes "sorted_wrt (\<lambda>a b. f a < f b \<or> (f a = f b \<and> Q a b)) ys"
    and "\<forall>y\<in>set ys. f x = f y \<longrightarrow> Q x y"
  shows "sorted_wrt (\<lambda>a b. f a < f b \<or> (f a = f b \<and> Q a b)) (insort_key f x ys)"
  using assms
proof (induction ys)
  case Nil
  then show ?case by simp
next
  case (Cons y ys)
  show ?case
  proof (cases "f x \<le> f y")
    case True
    have "f x < f z \<or> (f x = f z \<and> Q x z)" if "z \<in> set (y # ys)" for z
    proof -
      have "f y \<le> f z"
        using that Cons.prems(1) by auto
      with True have "f x \<le> f z"
        by simp
      then show ?thesis
        using Cons.prems(2) that by (cases "f x = f z") auto
    qed
    then show ?thesis
      using True Cons.prems(1) by auto
  next
    case False
    then show ?thesis
      using Cons by (auto simp: set_insort_key)
  qed
qed

lemma sort_key_lex:
  "sorted_wrt Q xs \<Longrightarrow>
   sorted_wrt (\<lambda>a b. f a < f b \<or> (f a = f b \<and> Q a b)) (sort_key f xs)"
proof (induction xs)
  case Nil
  then show ?case by simp
next
  case (Cons x xs)
  then have "sorted_wrt (\<lambda>a b. f a < f b \<or> (f a = f b \<and> Q a b)) (sort_key f xs)"
    and "\<forall>y\<in>set (sort_key f xs). f x = f y \<longrightarrow> Q x y"
    by auto
  then show ?case
    by (simp add: insort_key_lex)
qed

lemma sort_desc_lex:
  assumes "sorted_wrt Q xs"
  shows "sorted_wrt (\<lambda>a b. f b < f a \<or> (f a = f b \<and> Q a b)) (sort_desc f xs)"
proof -
  have "sorted_wrt (\<lambda>a b. - int (f a) < - int (f b) \<or> (- int (f a) = - int (f b) \<and> Q a b))
          (sort_key (\<lambda>x. - int (f x)) xs)"
    using assms by (rule sort_key_lex)
  then show ?thesis
    by (simp add: sort_desc_def)
qed

lemma insort_key_map:
  "insort_key f (g x) (map g ys) = map g (insort_key (\<lambda>y. f (g y)) x ys)"
  by (induction ys) simp_all

lemma sort_key_map_commute: "sort_key f (map g xs) = map g (sort_key (\<lambda>y. f (g y)) xs)"
  by (induction xs) (simp_all add: insort_key_map)

lemma sort_desc_map: "sort_desc f (map g xs) = map g (sort_desc (\<lambda>y. f (g y)) xs)"
  by (simp add: sort_desc_def sort_key_map_commute)

lemma sorted_wrt_take_drop:
  "sorted_wrt P xs \<Longrightarrow> a \<in> set (take n xs) \<Longrightarrow> b \<in> set (drop n xs) \<Longrightarrow> P a b"
  using sorted_wrt_append [of P "take n xs" "drop n xs"] by simp

lemma sort_desc_sorted: "sorted_wrt (\<lambda>a b. f b \<le> f a) (sort_desc f xs)"
proof -
  have "sorted (map (\<lambda>x. - int (f x)) (sort_key (\<lambda>x. - int (f x)) xs))"
    by (rule sorted_sort_key)
  then have "sorted_wrt (\<lambda>a b. - int (f a) \<le> - int (f b)) (sort_key (\<lambda>x. - int (f x)) xs)"
    by (simp only: sorted_map)
  then show ?thesis
    by (simp add: sort_desc_def)
qed

lemma distinct_map_sort_desc: "distinct (map g xs) \<Longrightarrow> distinct (map g (sort_desc f xs))"
  by (simp add: distinct_map sort_desc_def)



section \<open>Route analysis\<close>

lemma route_key_not_empty: "route_key f \<noteq> []"
  by (simp add: route_key_def)

lemma aircraft_key_not_empty: "aircraft_key f \<noteq> []"
  by (simp add: aircraft_key_def or_default_def split: option.splits)

lemma first_or_NA_hd: "xs \<noteq> [] \<Longrightarrow> hd xs \<noteq> [] \<Longrightarrow> first_or_NA xs = hd xs"
  by (cases xs) (simp_all add: first_or_NA_def)

lemma routeAnalysis_of_eq:
  "routeAnalysis_of F = take 5 (sort_desc frequency (map route_entry_of (routeMap_of F)))"
proof -
  have "(\<lambda>(r, data).
           \<lparr>route = r, frequency = count data,
            avgDuration = (if 0 < count data
                           then num_div (totalDuration data) (nat_number (count data))
                           else Fin 0)\<rparr>) = route_entry_of"
    by (auto simp: fun_eq_iff route_entry_of_def)
  then show ?thesis
    by (simp add: routeAnalysis_of_def)
qed

lemma route_entries_keys: "map route (map route_entry_of m) = map fst m"
  by (simp add: route_entry_of_def)

lemma group_size:
  "length (foldl (group_step key) [] F) = card (key ` set F)"
proof -
  have "length (foldl (group_step key) [] F) = length (map fst (foldl (group_step key) [] F))"
    by simp
  also have "\<dots> = card (set (map fst (foldl (group_step key) [] F)))"
    using group_keys_distinct [of key F] by (simp only: distinct_card)
  also have "\<dots> = card (key ` set F)"
    by (simp add: group_keys_set)
  finally show ?thesis .
qed

lemma group_count_pos:
  "(k, g) \<in> set (foldl (group_step key) [] F) \<Longrightarrow> 0 < count g \<and> k \<in> key ` set F"
proof -
  assume m: "(k, g) \<in> set (foldl (group_step key) [] F)"
  then have "k \<in> fst ` set (foldl (group_step key) [] F)"
    by force
  then have k: "k \<in> key ` set F"
    by (simp add: group_keys_set)
  then have "filter (\<lambda>f. key f = k) F \<noteq> []"
    by (auto simp: filter_empty_conv)
  then show ?thesis
    using group_entries [OF m] k by simp
qed

lemma route_entries_sorted:
  "sorted_wrt (\<lambda>a b. frequency b < frequency a
        \<or> (frequency a = frequency b
           \<and> first_index (map route_key F) (route a) < first_index (map route_key F) (route b)))
     (sort_desc frequency (map route_entry_of (routeMap_of F)))"
proof -
  let ?Q = "\<lambda>a b. first_index (map route_key F) (route a) < first_index (map route_key F) (route b)"
  have "sorted_wrt (\<lambda>a b. first_index (map route_key F) a < first_index (map route_key F) b)
          (map route (map route_entry_of (routeMap_of F)))"
    unfolding route_entries_keys routeMap_of_def by (rule group_keys_first_seen)
  then have "sorted_wrt ?Q (map route_entry_of (routeMap_of F))"
    by (simp only: sorted_wrt_map)
  then show ?thesis
    by (rule sort_desc_lex)
qed

lemma route_entries_lex:
  "sorted_wrt (\<lambda>a b. frequency b < frequency a
        \<or> (frequency a = frequency b
           \<and> first_index (map route_key F) (route a) < first_index (map route_key F) (route b)))
     (routeAnalysis_of F)"
  unfolding routeAnalysis_of_eq using route_entries_sorted by (rule sorted_wrt_take)

lemma route_entry_facts:
  assumes "e \<in> set (map route_entry_of (routeMap_of F))"
  shows "route e \<in> set (map route_key F)
     \<and> frequency e = length (filter (\<lambda>f. route_key f = route e) F)
     \<and> avgDuration e = num_div (accumulated (durations_with route_key (route e) F))
                          (nat_number (frequency e))"
proof -
  from assms obtain k g where m: "(k, g) \<in> set (routeMap_of F)" and e: "e = route_entry_of (k, g)"
    by auto
  from m have pos: "0 < count g" "k \<in> route_key ` set F"
    and ent: "count g = length (filter (\<lambda>f. route_key f = k) F)"
      "totalDuration g = accumulated (durations_with route_key k F)"
    unfolding routeMap_of_def using group_count_pos group_entries by blast+
  then show ?thesis
    unfolding e by (simp add: route_entry_of_def)
qed



lemma routeAnalysis_length:
  "length (routeAnalysis_of F) = min 5 (card (set (map route_key F)))"
  by (simp add: routeAnalysis_of_eq routeMap_of_def group_size min.commute)

lemma routeAnalysis_distinct: "distinct (map route (routeAnalysis_of F))"
proof -
  have "distinct (map route (map route_entry_of (routeMap_of F)))"
    unfolding route_entries_keys routeMap_of_def by (rule group_keys_distinct)
  then have "distinct (map route (sort_desc frequency (map route_entry_of (routeMap_of F))))"
    by (rule distinct_map_sort_desc)
  then show ?thesis
    by (simp add: routeAnalysis_of_eq take_map [symmetric] distinct_take)
qed

lemma routeAnalysis_top:
  assumes k: "k \<in> set (map route_key F)" and out: "k \<notin> set (map route (routeAnalysis_of F))"
    and e: "e \<in> set (routeAnalysis_of F)"
  shows "length (filter (\<lambda>f. route_key f = k) F) < frequency e
     \<or> (frequency e = length (filter (\<lambda>f. route_key f = k) F)
        \<and> first_index (map route_key F) (route e) < first_index (map route_key F) k)"
proof -
  let ?E = "map route_entry_of (routeMap_of F)"
  let ?S = "sort_desc frequency ?E"
  from k have "k \<in> set (map fst (routeMap_of F))"
    by (simp add: routeMap_of_def group_keys_set)
  then obtain x where x: "x \<in> set ?E" "route x = k"
    unfolding route_entries_keys [symmetric] by auto
  then have "x \<in> set (take 5 ?S) \<union> set (drop 5 ?S)"
    by (simp only: set_append [symmetric] append_take_drop_id set_sort_desc)
  moreover have "x \<notin> set (take 5 ?S)"
    using out x(2) by (auto simp: routeAnalysis_of_eq)
  ultimately have xd: "x \<in> set (drop 5 ?S)"
    by simp
  have "frequency x < frequency e
      \<or> (frequency e = frequency x
         \<and> first_index (map route_key F) (route e) < first_index (map route_key F) (route x))"
    using route_entries_sorted [of F] e xd unfolding routeAnalysis_of_eq by (rule sorted_wrt_take_drop)
  moreover have "frequency x = length (filter (\<lambda>f. route_key f = k) F)"
    using route_entry_facts [OF x(1)] x(2) by simp
  ultimately show ?thesis
    using x(2) by simp
qed

lemma routeAnalysis_entry:
  assumes "e \<in> set (routeAnalysis_of F)"
  shows "route e \<in> set (map route_key F)
     \<and> frequency e = length (filter (\<lambda>f. route_key f = route e) F)
     \<and> avgDuration e = num_div (accumulated (durations_with route_key (route e) F))
                          (nat_number (frequency e))"
proof -
  from assms have "e \<in> set (map route_entry_of (routeMap_of F))"
    unfolding routeAnalysis_of_eq by (auto dest: in_set_takeD)
  then show ?thesis
    by (rule route_entry_facts)
qed

lemma mostFrequentRoute_hd:
  assumes "F \<noteq> []"
  shows "first_or_NA (map route (routeAnalysis_of F)) = route (hd (routeAnalysis_of F))"
proof -
  have "0 < card (set (map route_key F))"
    using assms by (simp add: card_gt_0_iff)
  then have ne: "routeAnalysis_of F \<noteq> []"
    using routeAnalysis_length [of F] by (cases "routeAnalysis_of F") auto
  then have "hd (routeAnalysis_of F) \<in> set (routeAnalysis_of F)"
    by simp
  then have "route (hd (routeAnalysis_of F)) \<in> set (map route_key F)"
    using routeAnalysis_entry by blast
  then obtain f where "route (hd (routeAnalysis_of F)) = route_key f"
    by auto
  then have "route (hd (routeAnalysis_of F)) \<noteq> []"
    by (simp add: route_key_not_empty)
  then show ?thesis
    using ne by (simp add: first_or_NA_hd hd_map)
qed





section \<open>Carrier breakdown and airline analysis\<close>

lemma aircraftBreakdown_of_eq:
  "aircraftBreakdown_of F =
     take 5 (sort_desc ac_count (map (aircraft_entry_of (length F)) (aircraftMap_of F)))"
proof -
  have "(\<lambda>(t, data).
           \<lparr>ac_type = t, ac_count = count data, ac_hours = totalDuration data,
            percentage = (if 0 < length F
                          then num_mul (num_div (nat_number (count data))
                                          (nat_number (length F))) (Fin 100)
                          else Fin 0)\<rparr>) = aircraft_entry_of (length F)"
    by (auto simp: fun_eq_iff aircraft_entry_of_def)
  then show ?thesis
    by (simp add: aircraftBreakdown_of_def Let_def)
qed

lemma aircraft_entries_keys: "map ac_type (map (aircraft_entry_of n) m) = map fst m"
  by (simp add: aircraft_entry_of_def)

lemma aircraft_entries_sorted:
  "sorted_wrt (\<lambda>a b. ac_count b < ac_count a
        \<or> (ac_count a = ac_count b
           \<and> first_index (map aircraft_key F) (ac_type a) < first_index (map aircraft_key F) (ac_type b)))
     (sort_desc ac_count (map (aircraft_entry_of (length F)) (aircraftMap_of F)))"
proof -
  let ?Q = "\<lambda>a b. first_index (map aircraft_key F) (ac_type a) < first_index (map aircraft_key F) (ac_type b)"
  have "sorted_wrt (\<lambda>a b. first_index (map aircraft_key F) a < first_index (map aircraft_key F) b)
          (map ac_type (map (aircraft_entry_of (length F)) (aircraftMap_of F)))"
    unfolding aircraft_entries_keys aircraftMap_of_def by (rule group_keys_first_seen)
  then have "sorted_wrt ?Q (map (aircraft_entry_of (length F)) (aircraftMap_of F))"
    by (simp only: sorted_wrt_map)
  then show ?thesis
    by (rule sort_desc_lex)
qed

lemma aircraft_entries_lex:
  "sorted_wrt (\<lambda>a b. ac_count b < ac_count a
        \<or> (ac_count a = ac_count b
           \<and> first_index (map aircraft_key F) (ac_type a) < first_index (map aircraft_key F) (ac_type b)))
     (aircraftBreakdown_of F)"
  unfolding aircraftBreakdown_of_eq using aircraft_entries_sorted by (rule sorted_wrt_take)

lemma aircraft_entry_facts:
  assumes "e \<in> set (map (aircraft_entry_of (length F)) (aircraftMap_of F))"
  shows "ac_type e \<in> set (map aircraft_key F)
     \<and> ac_count e = length (filter (\<lambda>f. aircraft_key f = ac_type e) F)
     \<and> ac_hours e = accumulated (durations_with aircraft_key (ac_type e) F)
     \<and> percentage e = num_mul (num_div (nat_number (ac_count e)) (nat_number (length F)))
                         (Fin 100)"
proof -
  from assms obtain k g where m: "(k, g) \<in> set (aircraftMap_of F)" and e: "e = aircraft_entry_of (length F) (k, g)"
    by auto
  from m have pos: "0 < count g" "k \<in> aircraft_key ` set F"
    and ent: "count g = length (filter (\<lambda>f. aircraft_key f = k) F)"
      "totalDuration g = accumulated (durations_with aircraft_key k F)"
    unfolding aircraftMap_of_def using group_count_pos group_entries by blast+
  moreover from pos(2) have "0 < length F"
    by auto
  ultimately show ?thesis
    unfolding e by (simp add: aircraft_entry_of_def)
qed

lemma aircraftBreakdown_length:
  "length (aircraftBreakdown_of F) = min 5 (card (set (map aircraft_key F)))"
  by (simp add: aircraftBreakdown_of_eq aircraftMap_of_def group_size min.commute)

lemma aircraftBreakdown_distinct: "distinct (map ac_type (aircraftBreakdown_of F))"
proof -
  have "distinct (map ac_type (map (aircraft_entry_of (length F)) (aircraftMap_of F)))"
    unfolding aircraft_entries_keys aircraftMap_of_def by (rule group_keys_distinct)
  then have "distinct (map ac_type (sort_desc ac_count (map (aircraft_entry_of (length F)) (aircraftMap_of F))))"
    by (rule distinct_map_sort_desc)
  then show ?thesis
    by (simp add: aircraftBreakdown_of_eq take_map [symmetric] distinct_take)
qed

lemma aircraftBreakdown_top:
  assumes k: "k \<in> set (map aircraft_key F)" and out: "k \<notin> set (map ac_type (aircraftBreakdown_of F))"
    and e: "e \<in> set (aircraftBreakdown_of F)"
  shows "length (filter (\<lambda>f. aircraft_key f = k) F) < ac_count e
     \<or> (ac_count e = length (filter (\<lambda>f. aircraft_key f = k) F)
        \<and> first_index (map aircraft_key F) (ac_type e) < first_index (map aircraft_key F) k)"
proof -
  let ?E = "map (aircraft_entry_of (length F)) (aircraftMap_of F)"
  let ?S = "sort_desc ac_count ?E"
  from k have "k \<in> set (map fst (aircraftMap_of F))"
    by (simp add: aircraftMap_of_def group_keys_set)
  then obtain g where "(k, g) \<in> set (aircraftMap_of F)"
    by auto
  then have "aircraft_entry_of (length F) (k, g) \<in> set ?E"
    by simp
  moreover have "ac_type (aircraft_entry_of (length F) (k, g)) = k"
    by (simp add: aircraft_entry_of_def)
  ultimately obtain x where x: "x \<in> set ?E" "ac_type x = k"
    by blast
  then have "x \<in> set (take 5 ?S) \<union> set (drop 5 ?S)"
    by (simp only: set_append [symmetric] append_take_drop_id set_sort_desc)
  moreover have "x \<notin> set (take 5 ?S)"
    using out x(2) by (auto simp: aircraftBreakdown_of_eq)
  ultimately have xd: "x \<in> set (drop 5 ?S)"
    by simp
  have "ac_count x < ac_count e
      \<or> (ac_count e = ac_count x
         \<and> first_index (map aircraft_key F) (ac_type e) < first_index (map aircraft_key F) (ac_type x))"
    using aircraft_entries_sorted [of F] e xd unfolding aircraftBreakdown_of_eq by (rule sorted_wrt_take_drop)
  moreover have "ac_count x = length (filter (\<lambda>f. aircraft_key f = k) F)"
    using aircraft_entry_facts [OF x(1)] x(2) by simp
  ultimately show ?thesis
    using x(2) by simp
qed

lemma aircraftBreakdown_entry:
  assumes "e \<in> set (aircraftBreakdown_of F)"
  shows "ac_type e \<in> set (map aircraft_key F)
     \<and> ac_count e = length (filter (\<lambda>f. aircraft_key f = ac_type e) F)
     \<and> ac_hours e = accumulated (durations_with aircraft_key (ac_type e) F)
     \<and> percentage e = num_mul (num_div (nat_number (ac_count e)) (nat_number (length F)))
                         (Fin 100)"
proof -
  from assms have "e \<in> set (map (aircraft_entry_of (length F)) (aircraftMap_of F))"
    unfolding aircraftBreakdown_of_eq by (auto dest: in_set_takeD)
  then show ?thesis
    by (rule aircraft_entry_facts)
qed

lemma mostUsedAircraft_hd:
  assumes "F \<noteq> []"
  shows "first_or_NA (map ac_type (aircraftBreakdown_of F)) = ac_type (hd (aircraftBreakdown_of F))"
proof -
  have "0 < card (set (map aircraft_key F))"
    using assms by (simp add: card_gt_0_iff)
  then have ne: "aircraftBreakdown_of F \<noteq> []"
    using aircraftBreakdown_length [of F] by (cases "aircraftBreakdown_of F") auto
  then have "hd (aircraftBreakdown_of F) \<in> set (aircraftBreakdown_of F)"
    by simp
  then have "ac_type (hd (aircraftBreakdown_of F)) \<in> set (map aircraft_key F)"
    using aircraftBreakdown_entry by blast
  then obtain f where "ac_type (hd (aircraftBreakdown_of F)) = aircraft_key f"
    by auto
  then have "ac_type (hd (aircraftBreakdown_of F)) \<noteq> []"
    by (simp add: aircraft_key_not_empty)
  then show ?thesis
    using ne by (simp add: first_or_NA_hd hd_map)
qed

lemma airline_projection:
  "map (\<lambda>e. (airline e, al_flights e)) (airlineAnalysis_of rnd F)
     = take 5 (sort_desc snd (map (\<lambda>p. (fst p, count (snd p))) (aircraftMap_of F)))"
proof -
  let ?mk = "\<lambda>(i, (a, data)).
               \<lparr>airline = a, al_flights = count data,
                reliability = num_add (Fin 85) (num_mul (Fin (rnd i)) (Fin 15))\<rparr>"
  let ?p = "\<lambda>e. (airline e, al_flights e)"
  let ?L = "map ?mk (enumerate 0 (aircraftMap_of F))"
  have "map ?p ?L = map ((\<lambda>p. (fst p, count (snd p))) \<circ> snd) (enumerate 0 (aircraftMap_of F))"
    by (simp add: case_prod_beta comp_def)
  also have "\<dots> = map (\<lambda>p. (fst p, count (snd p))) (map snd (enumerate 0 (aircraftMap_of F)))"
    by (simp only: map_map)
  finally have proj: "map ?p ?L = map (\<lambda>p. (fst p, count (snd p))) (aircraftMap_of F)"
    by (simp only: map_snd_enumerate)
  have "map ?p (airlineAnalysis_of rnd F) = take 5 (map ?p (sort_desc (\<lambda>e. snd (?p e)) ?L))"
    by (simp add: airlineAnalysis_of_def take_map)
  also have "\<dots> = take 5 (sort_desc snd (map ?p ?L))"
    by (simp only: sort_desc_map)
  finally show ?thesis
    by (simp only: proj)
qed

lemma aircraft_projection:
  "map (\<lambda>e. (ac_type e, ac_count e)) (aircraftBreakdown_of F)
     = take 5 (sort_desc snd (map (\<lambda>p. (fst p, count (snd p))) (aircraftMap_of F)))"
proof -
  let ?p = "\<lambda>e. (ac_type e, ac_count e)"
  let ?L = "map (aircraft_entry_of (length F)) (aircraftMap_of F)"
  have proj: "map ?p ?L = map (\<lambda>p. (fst p, count (snd p))) (aircraftMap_of F)"
    by (simp add: aircraft_entry_of_def)
  have "map ?p (aircraftBreakdown_of F) = take 5 (map ?p (sort_desc (\<lambda>e. snd (?p e)) ?L))"
    by (simp add: aircraftBreakdown_of_eq take_map)
  also have "\<dots> = take 5 (sort_desc snd (map ?p ?L))"
    by (simp only: sort_desc_map)
  finally show ?thesis
    by (simp only: proj)
qed



section \<open>Reliability scores\<close>

subsection \<open>Rounding never crosses an integer\<close>

lemma ilog2_le_52:
  assumes "a < 2 ^ 53"
  shows "ilog2 a \<le> 52"
proof (cases "1 \<le> a")
  case True
  have "real_of_int \<lfloor>a\<rfloor> \<le> a"
    by simp
  with assms have "real_of_int \<lfloor>a\<rfloor> < 2 ^ 53"
    by linarith
  then have "\<lfloor>a\<rfloor> < 2 ^ 53"
    by (metis of_int_less_iff of_int_numeral of_int_power)
  moreover have "0 \<le> \<lfloor>a\<rfloor>"
    using True by simp
  ultimately have "int (nat \<lfloor>a\<rfloor>) < int (2 ^ 53)"
    by simp
  then have "nat \<lfloor>a\<rfloor> < 2 ^ 53"
    by (simp only: of_nat_less_iff)
  then have "floorlog 2 (nat \<lfloor>a\<rfloor>) \<le> 53"
    by (simp add: floorlog_le_iff)
  with True show ?thesis
    by (simp add: ilog2_def)
next
  case False
  then show ?thesis
    by (simp add: ilog2_def)
qed

lemma ulp_exp_nonpos: "\<bar>x\<bar> < 2 ^ 53 \<Longrightarrow> ulp_exp x \<le> 0"
  using ilog2_le_52 [of "\<bar>x\<bar>"] by (simp add: ulp_exp_def)

lemma round_half_even_bounds: "\<lfloor>q\<rfloor> \<le> round_half_even q \<and> round_half_even q \<le> \<lceil>q\<rceil>"
proof -
  have "q - of_int \<lfloor>q\<rfloor> \<noteq> 0 \<Longrightarrow> \<lceil>q\<rceil> = \<lfloor>q\<rfloor> + 1"
    by (metis ceiling_altdef diff_eq_eq add.commute add_0)
  moreover have "\<lfloor>q\<rfloor> \<le> \<lceil>q\<rceil>"
    by (rule floor_le_ceiling)
  ultimately show ?thesis
    unfolding round_half_even_def Let_def by (auto split: if_splits)
qed

lemma round64_between:
  assumes "\<bar>x\<bar> < 2 ^ 53"
  shows "of_int \<lfloor>x\<rfloor> \<le> round64 x \<and> round64 x \<le> of_int \<lceil>x\<rceil>"
proof (cases "x = 0")
  case True
  then show ?thesis
    by (simp add: round64_def)
next
  case False
  define n where "n = nat (- ulp_exp x)"
  define M :: int where "M = 2 ^ n"
  have u: "pow2 (ulp_exp x) = 1 / of_int M"
    using ulp_exp_nonpos [OF assms] by (auto simp: pow2_def n_def M_def)
  have M: "0 < M"
    by (simp add: M_def)
  have r: "round64 x = of_int (round_half_even (x * of_int M)) / of_int M"
    using False by (simp add: round64_def u)
  have "of_int (\<lfloor>x\<rfloor> * M) \<le> x * of_int M"
    using M by (simp add: mult_right_mono)
  then have "\<lfloor>x\<rfloor> * M \<le> \<lfloor>x * of_int M\<rfloor>"
    by (simp only: le_floor_iff)
  then have lo: "\<lfloor>x\<rfloor> * M \<le> round_half_even (x * of_int M)"
    using round_half_even_bounds [of "x * of_int M"] by linarith
  have "x * of_int M \<le> of_int (\<lceil>x\<rceil> * M)"
    using M by (simp add: mult_right_mono)
  then have "\<lceil>x * of_int M\<rceil> \<le> \<lceil>x\<rceil> * M"
    by (simp only: ceiling_le_iff)
  then have hi: "round_half_even (x * of_int M) \<le> \<lceil>x\<rceil> * M"
    using round_half_even_bounds [of "x * of_int M"] by linarith
  have "of_int \<lfloor>x\<rfloor> = of_int (\<lfloor>x\<rfloor> * M) / (of_int M :: real)"
    using M by simp
  also have "\<dots> \<le> round64 x"
    unfolding r using lo M by (simp only: divide_le_cancel of_int_le_iff of_int_0_less_iff) simp
  finally have 1: "of_int \<lfloor>x\<rfloor> \<le> round64 x" .
  have "round64 x \<le> of_int (\<lceil>x\<rceil> * M) / (of_int M :: real)"
    unfolding r using hi M by (simp only: divide_le_cancel of_int_le_iff of_int_0_less_iff) simp
  also have "\<dots> = of_int \<lceil>x\<rceil>"
    using M by simp
  finally show ?thesis
    using 1 by simp
qed

lemma to_number_between:
  assumes "of_int lo \<le> x" "x \<le> of_int hi" "\<bar>lo\<bar> < 2 ^ 53" "\<bar>hi\<bar> < 2 ^ 53"
  shows "\<exists>y. to_number x = Fin y \<and> of_int lo \<le> y \<and> y \<le> of_int hi"
proof -
  have "- (2 ^ 53) < real_of_int lo" "real_of_int hi < 2 ^ 53"
    using assms(3,4) by (simp_all add: abs_less_iff flip: of_int_less_iff)
  then have small: "\<bar>x\<bar> < 2 ^ 53"
    using assms(1,2) by (simp add: abs_less_iff)
  have "lo \<le> \<lfloor>x\<rfloor>" "\<lceil>x\<rceil> \<le> hi"
    using assms(1,2) by (simp_all add: le_floor_iff ceiling_le_iff)
  then have "real_of_int lo \<le> of_int \<lfloor>x\<rfloor>" "real_of_int \<lceil>x\<rceil> \<le> of_int hi"
    by (simp_all only: of_int_le_iff)
  then have b: "of_int lo \<le> round64 x" "round64 x \<le> of_int hi"
    using round64_between [OF small] by linarith+
  have "(2::real) ^ 53 < 2 ^ 1024"
    by (simp only: power_strict_increasing_iff)
  then have "round64 x < pow2 1024" "- pow2 1024 < round64 x"
    using b \<open>- (2 ^ 53) < real_of_int lo\<close> \<open>real_of_int hi < 2 ^ 53\<close>
    by (simp_all add: pow2_def)
  then show ?thesis
    using b by (simp add: to_number_def Let_def)
qed

lemma reliability_range:
  assumes "0 \<le> r" "r < 1"
  shows "\<exists>z. num_add (Fin 85) (num_mul (Fin r) (Fin 15)) = Fin z \<and> 85 \<le> z \<and> z \<le> 100"
proof -
  have "of_int 0 \<le> r * 15" "r * 15 \<le> of_int 15"
    using assms by simp_all
  then obtain y where y: "to_number (r * 15) = Fin y" "of_int 0 \<le> y" "y \<le> of_int 15"
    using to_number_between [of 0 "r * 15" 15] by auto
  then have "of_int 85 \<le> 85 + y" "85 + y \<le> of_int 100"
    by simp_all
  then obtain z where "to_number (85 + y) = Fin z" "of_int 85 \<le> z" "z \<le> of_int 100"
    using to_number_between [of 85 "85 + y" 100] by auto
  then show ?thesis
    using y(1) by simp
qed

subsection \<open>What depends on the random numbers\<close>

lemma airlineAnalysis_any:
  "airlineAnalysis (processFlightAnalytics now rnd arg) =
     (case arg of None \<Rightarrow> [] | Some F \<Rightarrow> if F = [] then [] else airlineAnalysis_of rnd F)"
  by (simp add: processFlightAnalytics_def Let_def split: option.splits)

lemma airlineAnalysis_of_Nil: "airlineAnalysis_of rnd [] = []"
  by (simp add: airlineAnalysis_of_def aircraftMap_of_def sort_desc_def enumerate_eq_zip)

lemma other_fields_without_random:
  "(processFlightAnalytics now rnd arg)\<lparr>airlineAnalysis := []\<rparr>
     = (processFlightAnalytics now rnd' arg)\<lparr>airlineAnalysis := []\<rparr>"
  by (simp add: processFlightAnalytics_def Let_def split: option.splits)

lemma airlineAnalysis_reliability:
  assumes "\<forall>i. 0 \<le> rnd i \<and> rnd i < 1" and "e \<in> set (airlineAnalysis_of rnd F)"
  shows "\<exists>z. reliability e = Fin z \<and> 85 \<le> z \<and> z \<le> 100"
proof -
  from assms(2) have "e \<in> set (map (\<lambda>(i, (a, data)).
               \<lparr>airline = a, al_flights = count data,
                reliability = num_add (Fin 85) (num_mul (Fin (rnd i)) (Fin 15))\<rparr>)
          (enumerate 0 (aircraftMap_of F)))"
    unfolding airlineAnalysis_of_def by (auto dest: in_set_takeD)
  then obtain i where "reliability e = num_add (Fin 85) (num_mul (Fin (rnd i)) (Fin 15))"
    by auto
  then show ?thesis
    using reliability_range [of "rnd i"] assms(1) by simp
qed

text \<open>
  C8, amended. Two calls with the same input and the same current date return summaries
  that agree in every field but \<open>airlineAnalysis\<close>, and their \<open>airlineAnalysis\<close> arrays list
  the same airlines with the same flight counts in the same order: only the reliability
  scores depend on the random numbers. For random numbers in \<open>[0, 1)\<close> every reliability is
  a finite Number in the closed interval \<open>[85, 100]\<close>.
\<close>

theorem reliability_only_nondeterminism:
  assumes "\<forall>i. 0 \<le> rnd i \<and> rnd i < 1"
  shows "(processFlightAnalytics now rnd arg)\<lparr>airlineAnalysis := []\<rparr>
           = (processFlightAnalytics now rnd' arg)\<lparr>airlineAnalysis := []\<rparr>
     \<and> map (\<lambda>e. (airline e, al_flights e)) (airlineAnalysis (processFlightAnalytics now rnd arg))
         = map (\<lambda>e. (airline e, al_flights e)) (airlineAnalysis (processFlightAnalytics now rnd' arg))
     \<and> (\<forall>e\<in>set (airlineAnalysis (processFlightAnalytics now rnd arg)).
           \<exists>z. reliability e = Fin z \<and> 85 \<le> z \<and> z \<le> 100)"
proof (intro conjI ballI)
  show "(processFlightAnalytics now rnd arg)\<lparr>airlineAnalysis := []\<rparr>
           = (processFlightAnalytics now rnd' arg)\<lparr>airlineAnalysis := []\<rparr>"
    by (rule other_fields_without_random)
  show "map (\<lambda>e. (airline e, al_flights e)) (airlineAnalysis (processFlightAnalytics now rnd arg))
         = map (\<lambda>e. (airline e, al_flights e)) (airlineAnalysis (processFlightAnalytics now rnd' arg))"
    unfolding airlineAnalysis_any
    by (simp add: airline_projection split: option.splits)
  show "\<exists>z. reliability e = Fin z \<and> 85 \<le> z \<and> z \<le> 100"
    if "e \<in> set (airlineAnalysis (processFlightAnalytics now rnd arg))" for e
  proof -
    from that obtain F where "e \<in> set (airlineAnalysis_of rnd F)"
      unfolding airlineAnalysis_any by (auto split: option.splits if_splits)
    then show ?thesis
      using assms by (rule airlineAnalysis_reliability [rotated])
  qed
qed

text \<open>
  For \<open>four_flights\<close> and the random numbers all \<open>1/2\<close> the three reliabilities are 92.5,
  and the airlines and counts are those of a call whose random numbers are all 0.
\<close>

theorem reliability_only_nondeterminism_witness:
  "map reliability (airlineAnalysis
      (processFlightAnalytics november_2026 (\<lambda>i. 1 / 2) (Some four_flights)))
     = [Fin (185 / 2), Fin (185 / 2), Fin (185 / 2)]
   \<and> map (\<lambda>e. (airline e, al_flights e))
       (airlineAnalysis (processFlightAnalytics november_2026 (\<lambda>i. 1 / 2) (Some four_flights)))
     = map (\<lambda>e. (airline e, al_flights e))
       (airlineAnalysis (processFlightAnalytics november_2026 (\<lambda>i. 0) (Some four_flights)))"
proof -
  have ne: "four_flights \<noteq> []"
    by (simp add: four_flights_def)
  have r: "map reliability (airlineAnalysis
      (processFlightAnalytics november_2026 (\<lambda>i. 1 / 2) (Some four_flights)))
     = [Fin (185 / 2), Fin (185 / 2), Fin (185 / 2)]"
    unfolding summary_fields [OF ne]
    by (simp add: four_flights_def analytics_eval parse_eval number_eval)
  have h: "\<forall>i::nat. (0::real) \<le> 1 / 2 \<and> (1 / 2 :: real) < 1"
    by simp
  have "map (\<lambda>e. (airline e, al_flights e))
       (airlineAnalysis (processFlightAnalytics november_2026 (\<lambda>i. 1 / 2) (Some four_flights)))
     = map (\<lambda>e. (airline e, al_flights e))
       (airlineAnalysis (processFlightAnalytics november_2026 (\<lambda>i. 0) (Some four_flights)))"
    using reliability_only_nondeterminism [OF h, of november_2026 "Some four_flights" "\<lambda>i. 0"]
    by (elim conjE)
  then show ?thesis
    using r by simp
qed

text \<open>
  C8, as stated, fails at the upper end of the interval: \<open>1 - 2^-52\<close> is a binary64 value
  in \<open>[0, 1)\<close>; its product with 15 rounds to \<open>15 - 2^-48\<close>, and 85 more rounds to 100.
\<close>

theorem reliability_below_100_counterexample:
  "(0::real) \<le> 1 - 1 / 2 ^ 52 \<and> (1 - 1 / 2 ^ 52 :: real) < 1
   \<and> round64 (1 - 1 / 2 ^ 52) = 1 - 1 / 2 ^ 52
   \<and> map reliability (airlineAnalysis
        (processFlightAnalytics november_2026 (\<lambda>i. 1 - 1 / 2 ^ 52) (Some [flight_JFK_LAX])))
       = [Fin 100]"
  by (simp add: analytics_eval parse_eval number_eval)


section \<open>Monthly trend\<close>

subsection \<open>Month keys\<close>

lemma below_10_cases: "n < 10 \<Longrightarrow> n \<in> set [0..<10]"
  by simp

lemma digit_val_digit: "n < 10 \<Longrightarrow> digit_val (''0123456789'' ! n) = n"
  by (drule below_10_cases) (auto simp: digit_val_def upt_rec)

lemma is_digit_digit: "n < 10 \<Longrightarrow> is_digit (''0123456789'' ! n)"
  by (drule below_10_cases) (auto simp: is_digit_def upt_rec)

lemma digits_val_snoc: "digits_val (ds @ [c]) = 10 * digits_val ds + digit_val c"
  by (simp add: digits_val_def)

lemma digits_val_nat_to_string: "digits_val (nat_to_string n) = n"
proof (induction n rule: nat_to_string.induct)
  case (1 n)
  show ?case
  proof (cases "n < 10")
    case True
    then show ?thesis
      by (subst nat_to_string.simps) (simp add: digits_val_def digit_val_digit)
  next
    case False
    then have "digits_val (nat_to_string (n div 10)) = n div 10"
      using 1 by simp
    then show ?thesis
      using False
      by (subst nat_to_string.simps) (simp add: digits_val_snoc digit_val_digit)
  qed
qed

lemma nat_to_string_inj: "nat_to_string a = nat_to_string b \<Longrightarrow> a = b"
  by (metis digits_val_nat_to_string)

lemma nat_to_string_digits: "c \<in> set (nat_to_string n) \<Longrightarrow> is_digit c"
proof (induction n rule: nat_to_string.induct)
  case (1 n)
  note d = is_digit_digit
  show ?case
  proof (cases "n < 10")
    case True
    then show ?thesis
      using "1.prems" d [of n] by (subst (asm) nat_to_string.simps) simp
  next
    case False
    then show ?thesis
      using "1.prems" "1.IH" d [of "n mod 10"]
      by (subst (asm) nat_to_string.simps) auto
  qed
qed

lemma nat_to_string_not_Nil: "nat_to_string n \<noteq> []"
  by (subst nat_to_string.simps) simp

lemma hd_nat_to_string: "hd (nat_to_string n) \<noteq> CHR ''-''"
proof -
  have "hd (nat_to_string n) \<in> set (nat_to_string n)"
    by (simp add: nat_to_string_not_Nil)
  then have "is_digit (hd (nat_to_string n))"
    by (rule nat_to_string_digits)
  then show ?thesis
    by (auto simp: is_digit_def)
qed

lemma int_to_string_inj: "int_to_string a = int_to_string b \<Longrightarrow> a = b"
proof -
  assume eq: "int_to_string a = int_to_string b"
  consider "a < 0" "b < 0" | "0 \<le> a" "0 \<le> b" | "a < 0" "0 \<le> b" | "0 \<le> a" "b < 0"
    by linarith
  then show ?thesis
  proof cases
    case 1
    then have "nat (- a) = nat (- b)"
      using eq by (simp add: int_to_string_def nat_to_string_inj)
    with 1 show ?thesis by simp
  next
    case 2
    then have "nat a = nat b"
      using eq by (simp add: int_to_string_def nat_to_string_inj)
    with 2 show ?thesis by simp
  next
    case 3
    then have "CHR ''-'' # nat_to_string (nat (- a)) = nat_to_string (nat b)"
      using eq by (simp add: int_to_string_def)
    then have "hd (nat_to_string (nat b)) = CHR ''-''"
      by (metis list.sel(1))
    then show ?thesis
      by (simp add: hd_nat_to_string)
  next
    case 4
    then have "nat_to_string (nat a) = CHR ''-'' # nat_to_string (nat (- b))"
      using eq by (simp add: int_to_string_def)
    then have "hd (nat_to_string (nat a)) = CHR ''-''"
      by (metis list.sel(1))
    then show ?thesis
      by (simp add: hd_nat_to_string)
  qed
qed

lemma nat_to_string_digit: "n < 10 \<Longrightarrow> nat_to_string n = [''0123456789'' ! n]"
  by (subst nat_to_string.simps) simp

lemma length_nat_to_string_small: "n < 100 \<Longrightarrow> length (nat_to_string n) \<le> 2"
proof (cases "n < 10")
  case True
  then show ?thesis
    by (simp add: nat_to_string_digit)
next
  case False
  assume "n < 100"
  then have "n div 10 < 10"
    by simp
  moreover have "nat_to_string n = nat_to_string (n div 10) @ [''0123456789'' ! (n mod 10)]"
    using False by (subst nat_to_string.simps) simp
  ultimately show ?thesis
    by (simp add: nat_to_string_digit)
qed

lemma digits_val_zeros: "digits_val (replicate k CHR ''0'' @ s) = digits_val s"
proof (induction k)
  case 0
  then show ?case by simp
next
  case (Suc k)
  have "digits_val (CHR ''0'' # t) = digits_val t" for t
  proof -
    have "foldl (\<lambda>n c. 10 * n + digit_val c) (digit_val CHR ''0'') t
            = foldl (\<lambda>n c. 10 * n + digit_val c) 0 t"
      by (simp add: digit_val_def)
    then show ?thesis
      by (simp add: digits_val_def)
  qed
  then show ?case
    using Suc by simp
qed

lemma month_part:
  assumes "m < 12"
  shows "length (padStart 2 CHR ''0'' (nat_to_string (m + 1))) = 2"
    and "digits_val (padStart 2 CHR ''0'' (nat_to_string (m + 1))) = m + 1"
  using assms length_nat_to_string_small [of "m + 1"]
  by (simp_all add: padStart_def digits_val_zeros digits_val_nat_to_string)

lemma getMonth_less: "getMonth d < 12"
  by (simp add: getMonth_def nat_less_iff)

lemma monthKey_of_inj:
  "monthKey_of (MonthDate a) = monthKey_of (MonthDate b) \<longleftrightarrow> a = b"
proof
  assume eq: "monthKey_of (MonthDate a) = monthKey_of (MonthDate b)"
  let ?y = "\<lambda>d. int_to_string (getFullYear d)"
  let ?m = "\<lambda>d. padStart 2 CHR ''0'' (nat_to_string (getMonth d + 1))"
  have "?y a @ (''-'' @ ?m a) = ?y b @ (''-'' @ ?m b)"
    using eq by (simp add: monthKey_of_def)
  moreover have "length (''-'' @ ?m a) = length (''-'' @ ?m b)"
    using month_part(1) [OF getMonth_less, of a] month_part(1) [OF getMonth_less, of b]
    by simp
  ultimately have "?y a = ?y b" and "?m a = ?m b"
    by (simp_all only: append_eq_append_conv list.inject append_Cons append_Nil) auto
  then have "getFullYear a = getFullYear b" and "getMonth a + 1 = getMonth b + 1"
    using month_part(2) [OF getMonth_less, of a] month_part(2) [OF getMonth_less, of b]
    by (auto dest: int_to_string_inj)
  then have "a div 12 = b div 12" "a mod 12 = b mod 12"
    by (simp_all add: getFullYear_def getMonth_def)
  then show "a = b"
    by (metis div_mult_mod_eq)
qed simp

lemma monthKey_of_valid: "monthKey_of (MonthDate a) \<noteq> monthKey_of InvalidDate"
proof
  assume eq: "monthKey_of (MonthDate a) = monthKey_of InvalidDate"
  let ?n = "nat_to_string (getMonth a + 1)"
  have "last (monthKey_of (MonthDate a)) = last ?n"
    by (simp add: monthKey_of_def padStart_def nat_to_string_not_Nil)
  moreover have "last ?n \<in> set ?n"
    by (simp add: nat_to_string_not_Nil)
  ultimately have "is_digit (last (monthKey_of (MonthDate a)))"
    by (simp add: nat_to_string_digits)
  moreover have "last (monthKey_of InvalidDate) = CHR ''N''"
    by (simp add: monthKey_of_def)
  ultimately show False
    using eq by (simp add: is_digit_def)
qed

subsection \<open>The buckets\<close>

lemma month_of_now: "12 * (now div 12) + (now mod 12 - i) = now - (i::int)"
proof -
  have "12 * (now div 12) + now mod 12 = now"
    by (rule mult_div_mod_eq)
  then show ?thesis
    by linarith
qed

lemma init_month_eq:
  "init_month now m i =
     map_set (monthKey_of (MonthDate (now - int i)))
       \<lparr>month = monthNames ! getMonth (now - int i), tr_flights = 0, tr_hours = Fin 0\<rparr> m"
  by (simp add: init_month_def Date_ym_def getFullYear_def month_of_now
      getMonth_def [of now])

lemma monthlyData_init:
  "foldl (init_month now) [] [5, 4, 3, 2, 1, 0] =
     month_bucket
       (\<lambda>d. \<lparr>month = monthNames ! getMonth d, tr_flights = 0, tr_hours = Fin 0\<rparr>)
       [now - 5, now - 4, now - 3, now - 2, now - 1, now]"
  by (simp add: init_month_eq month_bucket_def monthKey_of_inj)

lemma bucket_has:
  "map_has (month_bucket h ds) (monthKey_of (MonthDate x)) \<longleftrightarrow> x \<in> set ds"
  by (auto simp: map_has_def month_bucket_def monthKey_of_inj image_iff)

lemma bucket_has_invalid: "\<not> map_has (month_bucket h ds) (monthKey_of InvalidDate)"
  by (auto simp: map_has_def month_bucket_def image_iff monthKey_of_valid
      monthKey_of_valid [symmetric])

lemma bucket_get:
  "x \<in> set ds \<Longrightarrow> map_get (month_bucket h ds) (monthKey_of (MonthDate x)) = Some (h x)"
  by (induction ds) (auto simp: map_get_def month_bucket_def monthKey_of_inj)

lemma bucket_set:
  "map_set (monthKey_of (MonthDate x)) v (month_bucket h ds)
     = (if x \<in> set ds then month_bucket (h(x := v)) ds
        else month_bucket h ds @ [(monthKey_of (MonthDate x), v)])"
  if "distinct ds"
  using that by (induction ds) (auto simp: month_bucket_def monthKey_of_inj)

lemma bucket_cong:
  "(\<And>d. d \<in> set ds \<Longrightarrow> h d = h' d) \<Longrightarrow> month_bucket h ds = month_bucket h' ds"
  by (simp add: month_bucket_def)

lemma trend_step_bucket:
  assumes "distinct ds"
  shows "trend_step (month_bucket h ds) f =
     month_bucket
       (\<lambda>d. if in_month d f
            then (h d)\<lparr>tr_flights := tr_flights (h d) + 1,
                       tr_hours := num_add (tr_hours (h d)) (safeParseFloat (duration_hours f))\<rparr>
            else h d) ds"
proof (cases "flight_date f")
  case None
  then show ?thesis
    by (simp add: trend_step_def in_month_def)
next
  case (Some date)
  show ?thesis
  proof (cases date)
    case InvalidDate
    then show ?thesis
      using Some by (simp add: trend_step_def in_month_def bucket_has_invalid)
  next
    case (MonthDate x)
    show ?thesis
    proof (cases "x \<in> set ds")
      case False
      then have "\<not> in_month d f" if "d \<in> set ds" for d
        using that Some MonthDate by (auto simp: in_month_def)
      then have "month_bucket h ds = month_bucket
         (\<lambda>d. if in_month d f
            then (h d)\<lparr>tr_flights := tr_flights (h d) + 1,
                       tr_hours := num_add (tr_hours (h d)) (safeParseFloat (duration_hours f))\<rparr>
            else h d) ds"
        by (intro bucket_cong) simp
      then show ?thesis
        using False Some MonthDate by (simp add: trend_step_def bucket_has)
    next
      case True
      have "trend_step (month_bucket h ds) f =
          month_bucket (h(x := (h x)\<lparr>tr_flights := tr_flights (h x) + 1,
                       tr_hours := num_add (tr_hours (h x)) (safeParseFloat (duration_hours f))\<rparr>)) ds"
        using True Some MonthDate assms
        by (simp add: trend_step_def bucket_has bucket_get bucket_set Let_def)
      also have "\<dots> = month_bucket
         (\<lambda>d. if in_month d f
            then (h d)\<lparr>tr_flights := tr_flights (h d) + 1,
                       tr_hours := num_add (tr_hours (h d)) (safeParseFloat (duration_hours f))\<rparr>
            else h d) ds"
        using Some MonthDate by (intro bucket_cong) (auto simp: in_month_def)
      finally show ?thesis .
    qed
  qed
qed

lemma trend_fold_bucket:
  assumes "distinct ds"
  shows "foldl trend_step (month_bucket h ds) F =
     month_bucket
       (\<lambda>d. (h d)\<lparr>tr_flights := tr_flights (h d) + length (filter (in_month d) F),
                   tr_hours := foldl num_add (tr_hours (h d))
                                 (coerced_durations (filter (in_month d) F))\<rparr>) ds"
proof (induction F arbitrary: h)
  case Nil
  then show ?case
    by (simp add: coerced_durations_def)
next
  case (Cons f F)
  show ?case
    unfolding foldl_Cons trend_step_bucket [OF assms] Cons.IH
    by (intro bucket_cong) (simp add: coerced_durations_def)
qed

lemma generateMonthlyTrend_eq:
  "generateMonthlyTrend now F =
     map (\<lambda>d. \<lparr>month = monthNames ! getMonth d,
               tr_flights = length (filter (in_month d) F),
               tr_hours = num_div (Math_round (num_mul
                            (num_sum (coerced_durations (filter (in_month d) F))) (Fin 10)))
                            (Fin 10)\<rparr>)
       [now - 5, now - 4, now - 3, now - 2, now - 1, now]"
proof -
  have d: "distinct [now - 5, now - 4, now - 3, now - 2, now - 1, now]"
    by simp
  show ?thesis
    unfolding generateMonthlyTrend_def Let_def monthlyData_init trend_fold_bucket [OF d]
    by (simp add: month_bucket_def num_sum_def)
qed

subsection \<open>What depends on the dates\<close>

lemma group_step_redate:
  "group_step route_key m (f\<lparr>flight_date := d\<rparr>) = group_step route_key m f"
  "group_step aircraft_key m (f\<lparr>flight_date := d\<rparr>) = group_step aircraft_key m f"
  by (simp_all add: group_step_def route_key_def aircraft_key_def)

lemma redate_invariant:
  "totalHours_of (map (\<lambda>f. f\<lparr>flight_date := d f\<rparr>) F) = totalHours_of F"
  "routeMap_of (map (\<lambda>f. f\<lparr>flight_date := d f\<rparr>) F) = routeMap_of F"
  "aircraftMap_of (map (\<lambda>f. f\<lparr>flight_date := d f\<rparr>) F) = aircraftMap_of F"
  "statusDistribution_of (map (\<lambda>f. f\<lparr>flight_date := d f\<rparr>) F) = statusDistribution_of F"
  by (simp_all add: totalHours_of_def routeMap_of_def aircraftMap_of_def
      statusDistribution_of_def foldl_map group_step_redate filter_map comp_def)

lemma redate_other_fields:
  "(processFlightAnalytics now rnd (Some (map (\<lambda>f. f\<lparr>flight_date := d f\<rparr>) F)))
      \<lparr>monthlyTrend := []\<rparr>
   = (processFlightAnalytics now rnd (Some F))\<lparr>monthlyTrend := []\<rparr>"
proof (cases "F = []")
  case True
  then show ?thesis
    by simp
next
  case False
  then have "map (\<lambda>f. f\<lparr>flight_date := d f\<rparr>) F \<noteq> []"
    by simp
  then show ?thesis
    using False
    by (simp add: processFlightAnalytics_nonempty redate_invariant routeAnalysis_of_def
        aircraftBreakdown_of_def airlineAnalysis_of_def)
qed

text \<open>
  On a non-empty input the trend has six entries, for the six calendar months ending at the
  current one, oldest first; the entry of a month counts the records dated in that month
  and carries the sum of their coerced durations, started from 0 and rounded to one decimal
  at the end. Records without a date, with an invalid date or with a date outside the six
  months enter no entry, and are counted in \<open>totalFlights\<close> and \<open>totalHours\<close> all the same;
  no other field of the summary depends on the dates.
\<close>

lemma monthlyTrend_buckets:
  assumes "F \<noteq> []"
  shows "length (monthlyTrend (processFlightAnalytics now rnd (Some F))) = 6
     \<and> (\<forall>i<6.
          month (monthlyTrend (processFlightAnalytics now rnd (Some F)) ! i)
            = monthNames ! getMonth (now - 5 + int i)
          \<and> tr_flights (monthlyTrend (processFlightAnalytics now rnd (Some F)) ! i)
            = length (filter (in_month (now - 5 + int i)) F)
          \<and> tr_hours (monthlyTrend (processFlightAnalytics now rnd (Some F)) ! i)
            = num_div (Math_round (num_mul
                (num_sum (coerced_durations (filter (in_month (now - 5 + int i)) F)))
                (Fin 10))) (Fin 10))
     \<and> totalFlights (processFlightAnalytics now rnd (Some F)) = length F
     \<and> totalHours (processFlightAnalytics now rnd (Some F))
         = toFixed_parsed 2 (num_sum (coerced_durations F))
     \<and> (processFlightAnalytics now rnd (Some (map (\<lambda>f. f\<lparr>flight_date := d f\<rparr>) F)))
          \<lparr>monthlyTrend := []\<rparr>
         = (processFlightAnalytics now rnd (Some F))\<lparr>monthlyTrend := []\<rparr>"
proof (intro conjI allI impI)
  have mt: "monthlyTrend (processFlightAnalytics now rnd (Some F)) = generateMonthlyTrend now F"
    using assms by (rule summary_fields)
  show "length (monthlyTrend (processFlightAnalytics now rnd (Some F))) = 6"
    unfolding mt generateMonthlyTrend_eq by simp
  show "totalFlights (processFlightAnalytics now rnd (Some F)) = length F"
    using assms by (rule summary_fields)
  show "totalHours (processFlightAnalytics now rnd (Some F))
         = toFixed_parsed 2 (num_sum (coerced_durations F))"
    using assms by (simp add: summary_fields totalHours_of_num_sum coerced_durations_def)
  show "(processFlightAnalytics now rnd (Some (map (\<lambda>f. f\<lparr>flight_date := d f\<rparr>) F)))
          \<lparr>monthlyTrend := []\<rparr>
         = (processFlightAnalytics now rnd (Some F))\<lparr>monthlyTrend := []\<rparr>"
    by (rule redate_other_fields)
  fix i :: nat
  assume "i < 6"
  then have "i \<in> set [0..<6]"
    by simp
  then have nth: "[now - 5, now - 4, now - 3, now - 2, now - 1, now] ! i = now - 5 + int i"
    by (auto simp: upt_rec)
  have len: "i < length [now - 5, now - 4, now - 3, now - 2, now - 1, now]"
    using \<open>i < 6\<close> by simp
  show "month (monthlyTrend (processFlightAnalytics now rnd (Some F)) ! i)
            = monthNames ! getMonth (now - 5 + int i)"
    unfolding mt generateMonthlyTrend_eq nth_map [OF len] nth by simp
  show "tr_flights (monthlyTrend (processFlightAnalytics now rnd (Some F)) ! i)
            = length (filter (in_month (now - 5 + int i)) F)"
    unfolding mt generateMonthlyTrend_eq nth_map [OF len] nth by simp
  show "tr_hours (monthlyTrend (processFlightAnalytics now rnd (Some F)) ! i)
            = num_div (Math_round (num_mul
                (num_sum (coerced_durations (filter (in_month (now - 5 + int i)) F)))
                (Fin 10))) (Fin 10)"
    unfolding mt generateMonthlyTrend_eq nth_map [OF len] nth by simp
qed

text \<open>
  In November 2026 the trend of \<open>trend_flights\<close> holds the two records of October, with
  10.6 hours (10.59 rounded to one decimal); all five records are counted in \<open>totalFlights\<close>.
\<close>

lemma monthlyTrend_buckets_example:
  "trend_flights \<noteq> []
   \<and> monthlyTrend (processFlightAnalytics november_2026 (\<lambda>i. 0) (Some trend_flights))
       = [\<lparr>month = ''Jun'', tr_flights = 0, tr_hours = Fin 0\<rparr>,
          \<lparr>month = ''Jul'', tr_flights = 0, tr_hours = Fin 0\<rparr>,
          \<lparr>month = ''Aug'', tr_flights = 0, tr_hours = Fin 0\<rparr>,
          \<lparr>month = ''Sep'', tr_flights = 0, tr_hours = Fin 0\<rparr>,
          \<lparr>month = ''Oct'', tr_flights = 2, tr_hours = to_number (106 / 10)\<rparr>,
          \<lparr>month = ''Nov'', tr_flights = 0, tr_hours = Fin 0\<rparr>]
   \<and> totalFlights (processFlightAnalytics november_2026 (\<lambda>i. 0) (Some trend_flights)) = 5
   \<and> length (monthlyTrend (processFlightAnalytics november_2026 (\<lambda>i. 0) (Some trend_flights)))
       = 6"
proof -
  have ne: "trend_flights \<noteq> []"
    by (simp add: trend_flights_def)
  have mt: "monthlyTrend (processFlightAnalytics november_2026 (\<lambda>i. 0) (Some trend_flights))
       = [\<lparr>month = ''Jun'', tr_flights = 0, tr_hours = Fin 0\<rparr>,
          \<lparr>month = ''Jul'', tr_flights = 0, tr_hours = Fin 0\<rparr>,
          \<lparr>month = ''Aug'', tr_flights = 0, tr_hours = Fin 0\<rparr>,
          \<lparr>month = ''Sep'', tr_flights = 0, tr_hours = Fin 0\<rparr>,
          \<lparr>month = ''Oct'', tr_flights = 2, tr_hours = to_number (106 / 10)\<rparr>,
          \<lparr>month = ''Nov'', tr_flights = 0, tr_hours = Fin 0\<rparr>]"
    unfolding summary_fields [OF ne]
    by (simp add: trend_flights_def analytics_eval parse_eval number_eval)
  note buckets = monthlyTrend_buckets [OF ne, of november_2026 "\<lambda>i. 0" "\<lambda>f. None"]
  have "totalFlights (processFlightAnalytics november_2026 (\<lambda>i. 0) (Some trend_flights))
          = length trend_flights"
    using buckets by (elim conjE)
  moreover have "length (monthlyTrend
      (processFlightAnalytics november_2026 (\<lambda>i. 0) (Some trend_flights))) = 6"
    using buckets by (elim conjE)
  ultimately show ?thesis
    using ne mt by (simp add: trend_flights_def)
qed

text \<open>
  C4. On every non-empty input the trend has the six buckets ending at the current month,
  filled as \<open>monthlyTrend_buckets\<close> states. On the empty input it has not: in November 2026
  the six months ending at the current one are Jun to Nov, which are the months of the
  trend for one record, while for an empty or absent array \<open>generateEmptyMonthlyTrend\<close>
  answers Jan to Jun.
\<close>

theorem monthlyTrend_empty_input:
  "map month (monthlyTrend (processFlightAnalytics november_2026 (\<lambda>i. 0) (Some [])))
     = [''Jan'', ''Feb'', ''Mar'', ''Apr'', ''May'', ''Jun'']
   \<and> map month (monthlyTrend (processFlightAnalytics november_2026 (\<lambda>i. 0) None))
     = [''Jan'', ''Feb'', ''Mar'', ''Apr'', ''May'', ''Jun'']
   \<and> map (\<lambda>i. monthNames ! getMonth (november_2026 - 5 + int i)) [0, 1, 2, 3, 4, 5]
     = [''Jun'', ''Jul'', ''Aug'', ''Sep'', ''Oct'', ''Nov'']
   \<and> map month (monthlyTrend
         (processFlightAnalytics november_2026 (\<lambda>i. 0) (Some [flight_JFK_LAX])))
     = [''Jun'', ''Jul'', ''Aug'', ''Sep'', ''Oct'', ''Nov'']"
proof -
  have "generateMonthlyTrend november_2026 [flight_JFK_LAX]
          = map (\<lambda>m. \<lparr>month = m, tr_flights = 0, tr_hours = Fin 0\<rparr>)
              [''Jun'', ''Jul'', ''Aug'', ''Sep'', ''Oct'', ''Nov'']"
    by (simp add: analytics_eval parse_eval number_eval)
  then show ?thesis
    by (simp add: processFlightAnalytics_def generateEmptyMonthlyTrend_def monthNames_def
        getMonth_def november_2026_def Let_def)
qed


section \<open>\<open>NaN\<close> in the summary\<close>

subsection \<open>Operations that keep \<open>NaN\<close> out\<close>

lemma finite_number_iff: "finite_number n \<longleftrightarrow> (\<exists>x. n = Fin x)"
  by (cases n) (simp_all add: finite_number_def)

lemma num_add_finite: "a \<noteq> NaN \<Longrightarrow> finite_number b \<Longrightarrow> num_add a b \<noteq> NaN"
  by (cases a) (auto simp: finite_number_iff)

lemma num_add_to_finite: "b \<noteq> NaN \<Longrightarrow> num_add (Fin a) b \<noteq> NaN"
  by (cases b) simp_all

lemma foldl_num_add_finite:
  "a \<noteq> NaN \<Longrightarrow> list_all finite_number xs \<Longrightarrow> foldl num_add a xs \<noteq> NaN"
  by (induction xs arbitrary: a) (simp_all add: num_add_finite)

lemma num_sum_finite: "list_all finite_number xs \<Longrightarrow> num_sum xs \<noteq> NaN"
  by (simp add: num_sum_def foldl_num_add_finite)

lemma accumulated_finite: "list_all finite_number xs \<Longrightarrow> accumulated xs \<noteq> NaN"
proof (cases xs)
  case Nil
  then show ?thesis
    by (simp add: accumulated_def)
next
  case (Cons d r)
  assume "list_all finite_number xs"
  with Cons have "d \<noteq> NaN" "list_all finite_number r"
    by (auto simp: finite_number_iff)
  then have "foldl num_add d r \<noteq> NaN"
    by (rule foldl_num_add_finite)
  with Cons show ?thesis
    by (simp add: accumulated_def)
qed

lemma num_mul_nonzero: "a \<noteq> NaN \<Longrightarrow> c \<noteq> 0 \<Longrightarrow> num_mul a (Fin c) \<noteq> NaN"
  by (cases a) (simp_all add: num_sgn_inf_def)

lemma num_div_nonzero: "a \<noteq> NaN \<Longrightarrow> c \<noteq> 0 \<Longrightarrow> num_div a (Fin c) \<noteq> NaN"
  by (cases a) (simp_all add: num_sgn_inf_def)

lemma num_div_count: "a \<noteq> NaN \<Longrightarrow> 0 < n \<Longrightarrow> num_div a (nat_number n) \<noteq> NaN"
  by (simp add: nat_number_def num_div_nonzero)

lemma Math_floor_NaN [simp]: "Math_floor a = NaN \<longleftrightarrow> a = NaN"
  by (cases a) simp_all

lemma Math_round_NaN [simp]: "Math_round a = NaN \<longleftrightarrow> a = NaN"
  by (cases a) simp_all

lemma toFixed_parsed_NaN [simp]: "toFixed_parsed d a = NaN \<longleftrightarrow> a = NaN"
  by (cases a) simp_all

lemma nat_number_not_NaN [simp]: "nat_number n \<noteq> NaN"
  by (simp add: nat_number_def)

lemma share_not_NaN:
  "0 < n \<Longrightarrow> num_mul (num_div (nat_number c) (nat_number n)) (Fin 100) \<noteq> NaN"
  by (simp add: num_mul_nonzero num_div_count)

lemma fraction_literals:
  "to_number (75 / 100) = Fin (3 / 4)"
  "to_number (25 / 100) = Fin (1 / 4)"
  "to_number (40 / 100) = Fin (3602879701896397 / 9007199254740992)"
  "to_number (60 / 100) = Fin (5404319552844595 / 9007199254740992)"
  by (simp_all add: number_eval)

lemma timeDistribution_of_not_NaN:
  assumes "t \<noteq> NaN"
  shows "day (timeDistribution_of t) \<noteq> NaN" "night (timeDistribution_of t) \<noteq> NaN"
    "ifr (timeDistribution_of t) \<noteq> NaN" "crossCountry (timeDistribution_of t) \<noteq> NaN"
  using assms unfolding timeDistribution_of_def fraction_literals
  by (simp_all add: num_mul_nonzero)

lemma reliability_not_NaN: "num_add (Fin 85) (num_mul (Fin r) (Fin 15)) \<noteq> NaN"
  by (simp add: num_add_to_finite)

lemma rounded_tenth_not_NaN:
  "t \<noteq> NaN \<Longrightarrow> num_div (Math_round (num_mul t (Fin 10))) (Fin 10) \<noteq> NaN"
  by (simp add: num_div_nonzero num_mul_nonzero)

subsection \<open>The Numbers of a summary\<close>

lemma durations_with_finite:
  "list_all finite_number (coerced_durations F) \<Longrightarrow> list_all finite_number (durations_with key k F)"
  by (simp add: coerced_durations_def durations_with_def list_all_iff)

lemma coerced_filter_finite:
  "list_all finite_number (coerced_durations F) \<Longrightarrow>
   list_all finite_number (coerced_durations (filter P F))"
  by (simp add: coerced_durations_def list_all_iff)

lemma group_not_NaN:
  assumes "list_all finite_number (coerced_durations F)"
    and "(k, g) \<in> set (foldl (group_step key) [] F)"
  shows "totalDuration g \<noteq> NaN" and "0 < count g"
  using group_entries [OF assms(2)] group_count_pos [OF assms(2)]
    accumulated_finite [OF durations_with_finite [OF assms(1)], of key k]
  by simp_all

lemma totalHours_not_NaN:
  "list_all finite_number (coerced_durations F) \<Longrightarrow> totalHours_of F \<noteq> NaN"
  by (simp add: totalHours_of_num_sum num_sum_finite flip: coerced_durations_def)

lemma routeAnalysis_not_NaN:
  assumes "list_all finite_number (coerced_durations F)" and "e \<in> set (routeAnalysis_of F)"
  shows "avgDuration e \<noteq> NaN"
proof -
  from assms(2) have "e \<in> set (map route_entry_of (routeMap_of F))"
    unfolding routeAnalysis_of_eq by (auto dest: in_set_takeD)
  then obtain k g where m: "(k, g) \<in> set (foldl (group_step route_key) [] F)"
    and e: "e = route_entry_of (k, g)"
    by (auto simp: routeMap_of_def)
  show ?thesis
    using group_not_NaN [OF assms(1) m] by (simp add: e route_entry_of_def num_div_count)
qed

lemma aircraftBreakdown_member:
  assumes "e \<in> set (aircraftBreakdown_of F)"
  shows "\<exists>k g. (k, g) \<in> set (foldl (group_step aircraft_key) [] F)
           \<and> ac_hours e = totalDuration g
           \<and> percentage e = (if 0 < length F
                               then num_mul (num_div (nat_number (count g))
                                               (nat_number (length F))) (Fin 100)
                               else Fin 0)"
proof -
  from assms obtain k g where "(k, g) \<in> set (foldl (group_step aircraft_key) [] F)"
    and "e = \<lparr>ac_type = k, ac_count = count g, ac_hours = totalDuration g,
               percentage = (if 0 < length F
                             then num_mul (num_div (nat_number (count g))
                                             (nat_number (length F))) (Fin 100)
                             else Fin 0)\<rparr>"
    unfolding aircraftBreakdown_of_def Let_def aircraftMap_of_def
    by (auto dest!: in_set_takeD)
  then show ?thesis
    by (intro exI [of _ k] exI [of _ g]) simp
qed

lemma percentage_not_NaN:
  assumes "e \<in> set (aircraftBreakdown_of F)"
  shows "percentage e \<noteq> NaN"
  using aircraftBreakdown_member [OF assms] by (elim exE conjE) (simp add: share_not_NaN)

lemma aircraftBreakdown_not_NaN:
  assumes "list_all finite_number (coerced_durations F)" and "e \<in> set (aircraftBreakdown_of F)"
  shows "ac_hours e \<noteq> NaN" and "percentage e \<noteq> NaN"
proof -
  have "totalDuration g \<noteq> NaN" if "(k, g) \<in> set (foldl (group_step aircraft_key) [] F)" for k g
    using group_not_NaN [OF assms(1) that] by simp
  with aircraftBreakdown_member [OF assms(2)] show "ac_hours e \<noteq> NaN"
    by (elim exE conjE) simp
  show "percentage e \<noteq> NaN"
    using assms(2) by (rule percentage_not_NaN)
qed

lemma airlineAnalysis_not_NaN:
  assumes "e \<in> set (airlineAnalysis_of rnd F)"
  shows "reliability e \<noteq> NaN"
proof -
  from assms have "e \<in> set (map (\<lambda>(i, (a, data)).
               \<lparr>airline = a, al_flights = count data,
                reliability = num_add (Fin 85) (num_mul (Fin (rnd i)) (Fin 15))\<rparr>)
          (enumerate 0 (aircraftMap_of F)))"
    unfolding airlineAnalysis_of_def by (auto dest: in_set_takeD)
  then obtain i where "reliability e = num_add (Fin 85) (num_mul (Fin (rnd i)) (Fin 15))"
    by auto
  then show ?thesis
    by (simp add: num_add_to_finite)
qed

lemma monthlyTrend_not_NaN:
  assumes "list_all finite_number (coerced_durations F)" and "e \<in> set (generateMonthlyTrend now F)"
  shows "tr_hours e \<noteq> NaN"
proof -
  from assms(2) obtain d where
    "tr_hours e = num_div (Math_round (num_mul
        (num_sum (coerced_durations (filter (in_month d) F))) (Fin 10))) (Fin 10)"
    unfolding generateMonthlyTrend_eq by auto
  then show ?thesis
    using num_sum_finite [OF coerced_filter_finite [OF assms(1)], of "in_month d"]
    by (simp add: rounded_tenth_not_NaN)
qed

lemma onTimePercentage_not_NaN:
  "onTimePercentage (processFlightAnalytics now rnd arg) \<noteq> NaN"
  by (simp add: processFlightAnalytics_def Let_def share_not_NaN split: option.split)

lemma airlineAnalysis_length: "length (airlineAnalysis_of rnd F) \<le> 5"
  by (simp add: airlineAnalysis_of_def)

lemma summary_lengths:
  "length (monthlyTrend (processFlightAnalytics now rnd arg)) = 6"
  "length (routeAnalysis (processFlightAnalytics now rnd arg)) \<le> 5"
  "length (aircraftBreakdown (processFlightAnalytics now rnd arg)) \<le> 5"
  "length (airlineAnalysis (processFlightAnalytics now rnd arg)) \<le> 5"
  by (simp_all add: processFlightAnalytics_def Let_def generateEmptyMonthlyTrend_def
      generateMonthlyTrend_eq routeAnalysis_length aircraftBreakdown_length
      airlineAnalysis_length split: option.split)

lemma summary_numbers_empty:
  "summary_numbers (processFlightAnalytics now rnd None)
     = replicate 4 (Fin 0) @ concat (replicate 6 [Fin 0, Fin 0]) @ replicate 8 (Fin 0)"
  "summary_numbers (processFlightAnalytics now rnd (Some []))
     = replicate 4 (Fin 0) @ concat (replicate 6 [Fin 0, Fin 0]) @ replicate 8 (Fin 0)"
  by (simp_all add: summary_numbers_def processFlightAnalytics_def generateEmptyMonthlyTrend_def
      nat_number_def numeral_eq_Suc)

lemma NaN_not_nat_number [simp]: "NaN \<noteq> nat_number n"
  by (simp add: nat_number_def)

lemma summary_numbers_nonempty:
  assumes "F \<noteq> []" and "list_all finite_number (coerced_durations F)"
  shows "NaN \<notin> set (summary_numbers (processFlightAnalytics now rnd (Some F)))"
proof -
  have t: "totalHours_of F \<noteq> NaN"
    using assms(2) by (rule totalHours_not_NaN)
  have n: "0 < length F"
    using assms(1) by simp
  have "num_div (totalHours_of F) (nat_number (length F)) \<noteq> NaN"
    using t n by (rule num_div_count)
  then have "NaN \<noteq> toFixed_parsed 2 (num_div (totalHours_of F) (nat_number (length F)))"
    by (metis toFixed_parsed_NaN)
  moreover have "NaN \<noteq> toFixed_parsed 2 (totalHours_of F)"
    using t by (metis toFixed_parsed_NaN)
  moreover have "onTimePercentage (processFlightAnalytics now rnd (Some F)) \<noteq> NaN"
    by (rule onTimePercentage_not_NaN)
  moreover have "\<forall>e \<in> set (generateMonthlyTrend now F). tr_hours e \<noteq> NaN"
    using monthlyTrend_not_NaN [OF assms(2)] by blast
  moreover have "\<forall>e \<in> set (aircraftBreakdown_of F). ac_hours e \<noteq> NaN \<and> percentage e \<noteq> NaN"
    using aircraftBreakdown_not_NaN [OF assms(2)] by blast
  moreover have "\<forall>e \<in> set (routeAnalysis_of F). avgDuration e \<noteq> NaN"
    using routeAnalysis_not_NaN [OF assms(2)] by blast
  moreover have "\<forall>e \<in> set (airlineAnalysis_of rnd F). reliability e \<noteq> NaN"
    using airlineAnalysis_not_NaN by blast
  ultimately show ?thesis
    unfolding summary_numbers_def summary_fields(1-3,6-11) [OF assms(1)]
    using t timeDistribution_of_not_NaN [OF t]
    by (auto simp del: num_div.simps num_mul.simps toFixed_parsed.simps)
qed

lemma summary_numbers_not_NaN:
  assumes "list_all finite_number (coerced_durations (flights_of arg))"
  shows "NaN \<notin> set (summary_numbers (processFlightAnalytics now rnd arg))"
proof (cases arg)
  case None
  then show ?thesis
    by (simp add: summary_numbers_empty)
next
  case (Some F)
  show ?thesis
  proof (cases "F = []")
    case True
    with Some show ?thesis
      by (simp add: summary_numbers_empty)
  next
    case False
    then show ?thesis
      using assms Some by (simp add: summary_numbers_nonempty flights_of_def)
  qed
qed

lemma coercion_of_absent:
  "safeParseFloat VNull = Fin 0" "safeParseFloat VUndefined = Fin 0"
  by (simp_all add: parse_eval)

lemma safeParseFloat_string_not_NaN: "safeParseFloat (VStr s) \<noteq> NaN"
  by (simp add: safeParseFloat_def Let_def)


lemma percentage_any:
  "e \<in> set (aircraftBreakdown (processFlightAnalytics now rnd arg)) \<Longrightarrow> percentage e \<noteq> NaN"
  by (cases arg; cases "flights_of arg = []")
    (simp_all add: processFlightAnalytics_def Let_def flights_of_def percentage_not_NaN)

lemma reliability_any:
  "e \<in> set (airlineAnalysis (processFlightAnalytics now rnd arg)) \<Longrightarrow> reliability e \<noteq> NaN"
  by (cases arg; cases "flights_of arg = []")
    (simp_all add: processFlightAnalytics_def Let_def flights_of_def airlineAnalysis_not_NaN)



end
